theory Spec2Isabelle
  imports Main "HOL-Library.Word" "HOL-Library.Signed_Division"
begin

unbundle bit_operations_syntax

section \<open>Subpicture management of the video output (vout_subpictures.c)\<close>

subsection \<open>Data model\<close>

text \<open>
  The status and type tags of a subpicture are integer constants of \<^verbatim>\<open>video.h\<close>; the
  source only ever compares them for equality, so they are the constructors of two
  datatypes. \<open>OTHER_SUBPICTURE\<close> stands for any type value that is none of the three
  named ones (the \<^verbatim>\<open>default:\<close> branches of the source).
\<close>

datatype subpicture_status =
  FREE_SUBPICTURE | RESERVED_SUBPICTURE | READY_SUBPICTURE | DESTROYED_SUBPICTURE

datatype subpicture_type =
  EMPTY_SUBPICTURE | DVD_SUBPICTURE | TEXT_SUBPICTURE | OTHER_SUBPICTURE int

type_synonym u8 = "8 word"
type_synonym u16 = "16 word"

text \<open>
  An \<^verbatim>\<open>int\<close> has 32 bits in two's complement. \<open>c_int x\<close> is the value that the compiled
  code gives to an \<^verbatim>\<open>int\<close> expression whose mathematical value is \<open>x\<close>: the result wraps
  around. It is written after every \<^verbatim>\<open>+\<close>, \<^verbatim>\<open>-\<close>, \<^verbatim>\<open>*\<close> and \<^verbatim>\<open><<\<close> that the source
  does on \<^verbatim>\<open>int\<close> operands.
\<close>

definition c_int :: "int \<Rightarrow> int" where
  "c_int x = signed_take_bit 31 x"

text \<open>
  A \<^verbatim>\<open>subpicture_t *\<close> of the source always points into the array
  \<^verbatim>\<open>p_vout->p_subpicture\<close>: it is the index of the slot, \<open>None\<close> for \<^verbatim>\<open>NULL\<close>.
  \<^verbatim>\<open>p_data\<close> is the address of a block of the C heap, \<open>None\<close> for \<^verbatim>\<open>NULL\<close>.
  The dates are \<^verbatim>\<open>mtime_t\<close> and the source only compares them. The geometry and the
  sizes are \<^verbatim>\<open>int\<close>: a field holds an integer from \<open>- 2 ^ 31\<close> up to \<open>2 ^ 31 - 1\<close>.
\<close>

record subpicture =
  i_type :: subpicture_type
  i_status :: subpicture_status
  i_size :: int
  p_next :: "nat option"
  i_start :: int
  i_stop :: int
  b_ephemer :: bool
  i_x :: int
  i_y :: int
  i_width :: int
  i_height :: int
  p_data :: "nat option"

datatype chroma = FOURCC_I420 | FOURCC_IYUV | FOURCC_YV12 | FOURCC_RV16 | FOURCC_OTHER

text \<open>The fields of \<^verbatim>\<open>vout_thread_t\<close> that this file reads or writes.\<close>

record vout_thread =
  p_subpicture :: "subpicture list"
  output_i_width :: int
  output_i_height :: int
  output_i_chroma :: chroma
  render_i_width :: int
  render_i_height :: int

text \<open>The calls of \<^verbatim>\<open>intf_ErrMsg\<close>, one constructor for each format string, with its arguments.\<close>

datatype errmsg =
    Invalid_status nat subpicture_status
      \<comment> \<open>\<^verbatim>\<open>vout error: subpicture %p has invalid status #%d\<close>\<close>
  | Heap_is_full
      \<comment> \<open>\<^verbatim>\<open>vout error: subpicture heap is full\<close>\<close>
  | Unknown_type subpicture_type
      \<comment> \<open>\<^verbatim>\<open>vout error: unknown subpicture type %d\<close>\<close>
  | Allocation_returned_ENOMEM
      \<comment> \<open>\<^verbatim>\<open>vout error: spu allocation returned %s\<close>\<close>
  | Unknown_subpicture nat subpicture_type
      \<comment> \<open>\<^verbatim>\<open>vout error: unknown subpicture %p type %d\<close>\<close>
  | Unknown_chroma
      \<comment> \<open>\<^verbatim>\<open>vout error: unknown chroma, can't render SPU\<close>\<close>

text \<open>
  The state the functions act on: the video output thread, the C heap (the live blocks,
  each with its contents read as the 16-bit units that \<^verbatim>\<open>vout_RenderSPU\<close> decodes) and
  the messages sent to the interface so far. The subpicture lock is not modelled: every
  function runs to completion on its own.
\<close>

record vout_state = vout_thread +
  heap :: "nat \<rightharpoonup> u16 list"
  intf_msgs :: "errmsg list"

definition intf_ErrMsg :: "errmsg \<Rightarrow> vout_state \<Rightarrow> vout_state" where
  "intf_ErrMsg m st = st\<lparr>intf_msgs := intf_msgs st @ [m]\<rparr>"

text \<open>\<^verbatim>\<open>free\<close>: the block is no longer live; \<^verbatim>\<open>free(NULL)\<close> does nothing.\<close>

definition libc_free :: "nat option \<Rightarrow> vout_state \<Rightarrow> vout_state" where
  "libc_free p st = (case p of None \<Rightarrow> st | Some a \<Rightarrow> st\<lparr>heap := (heap st)(a := None)\<rparr>)"

text \<open>
  \<^verbatim>\<open>memalign\<close> belongs to the C library: the allocator is a parameter, a function of the
  alignment, the size and the live blocks that either fails (\<^verbatim>\<open>NULL\<close>) or gives the
  address of the new block and its initial contents.
\<close>

type_synonym allocator = "nat \<Rightarrow> int \<Rightarrow> (nat \<rightharpoonup> u16 list) \<Rightarrow> (nat \<times> u16 list) option"

definition libc_memalign :: "allocator \<Rightarrow> nat \<Rightarrow> int \<Rightarrow> vout_state \<Rightarrow> nat option \<times> vout_state" where
  "libc_memalign alloc al n st =
     (case alloc al n (heap st) of
        None \<Rightarrow> (None, st)
      | Some (a, buf) \<Rightarrow> (Some a, st\<lparr>heap := (heap st)(a \<mapsto> buf)\<rparr>))"

subsection \<open>vout_DisplaySubPicture\<close>

text \<open>
  \<open>i_margin\<close> is what \<^verbatim>\<open>main_GetIntVariable( VOUT_SPUMARGIN_VAR, VOUT_SPUMARGIN_DEFAULT )\<close>
  returns: the configuration lookup is outside of this file.
\<close>

definition vout_DisplaySubPicture :: "int \<Rightarrow> nat \<Rightarrow> vout_state \<Rightarrow> vout_state" where
  "vout_DisplaySubPicture i_margin p_subpic st =
     (let sp = p_subpicture st ! p_subpic;
          st1 = (if i_status sp \<noteq> RESERVED_SUBPICTURE
                 then intf_ErrMsg (Invalid_status p_subpic (i_status sp)) st else st);
          sp1 = (if i_margin \<ge> 0
                 then (if c_int (i_height sp + i_margin) \<le> output_i_height st
                       then sp\<lparr>i_y := c_int (c_int (output_i_height st - i_margin) - i_height sp)\<rparr>
                       else sp)
                 else sp)
      in st1\<lparr>p_subpicture := (p_subpicture st1)[p_subpic := sp1\<lparr>i_status := READY_SUBPICTURE\<rparr>]\<rparr>)"

subsection \<open>vout_DestroySubPicture\<close>

definition vout_DestroySubPicture :: "nat \<Rightarrow> vout_state \<Rightarrow> vout_state" where
  "vout_DestroySubPicture p_subpic st =
     (let sp = p_subpicture st ! p_subpic;
          st1 = (if i_status sp \<noteq> RESERVED_SUBPICTURE \<and> i_status sp \<noteq> READY_SUBPICTURE
                 then intf_ErrMsg (Invalid_status p_subpic (i_status sp)) st else st)
      in st1\<lparr>p_subpicture := (p_subpicture st1)[p_subpic := sp\<lparr>i_status := DESTROYED_SUBPICTURE\<rparr>]\<rparr>)"

subsection \<open>vout_CreateSubPicture\<close>

text \<open>
  The scan of the \<^verbatim>\<open>for\<close> loop, with its two locals. It ends either at the first destroyed
  slot of the same type that is large enough (the \<^verbatim>\<open>return\<close> inside the loop), or after
  the last slot. \<^verbatim>\<open>VOUT_MAX_SUBPICTURES\<close> is the length of the array.
\<close>

datatype create_scan = Reuse nat | Scanned "nat option" "nat option"

function create_loop ::
  "subpicture list \<Rightarrow> subpicture_type \<Rightarrow> int \<Rightarrow> nat \<Rightarrow> nat option \<Rightarrow> nat option \<Rightarrow> create_scan"
where
  "create_loop pool ty sz i_subpic p_free_subpic p_destroyed_subpic =
     (if i_subpic < length pool then
        (if i_status (pool ! i_subpic) = DESTROYED_SUBPICTURE then
           (if i_type (pool ! i_subpic) = ty \<and> i_size (pool ! i_subpic) \<ge> sz
            then Reuse i_subpic
            else if p_destroyed_subpic = None
            then create_loop pool ty sz (Suc i_subpic) p_free_subpic (Some i_subpic)
            else create_loop pool ty sz (Suc i_subpic) p_free_subpic p_destroyed_subpic)
         else if p_free_subpic = None \<and> i_status (pool ! i_subpic) = FREE_SUBPICTURE
         then create_loop pool ty sz (Suc i_subpic) (Some i_subpic) p_destroyed_subpic
         else create_loop pool ty sz (Suc i_subpic) p_free_subpic p_destroyed_subpic)
      else Scanned p_free_subpic p_destroyed_subpic)"
  by pat_completeness auto
termination
  by (relation "measure (\<lambda>(pool, ty, sz, i, f, d). length pool - i)") auto

declare create_loop.simps [simp del]

text \<open>
  The function returns \<^verbatim>\<open>NULL\<close> at two places; the result says which one:
  \<open>PoolFull\<close> after \<^verbatim>\<open>subpicture heap is full\<close>, \<open>AllocationFailed\<close> after
  \<^verbatim>\<open>spu allocation returned ...\<close>. \<open>Inr i\<close> is the pointer to slot \<open>i\<close>.
\<close>

datatype create_error = PoolFull | AllocationFailed

definition prepare_subpicture ::
  "allocator \<Rightarrow> subpicture_type \<Rightarrow> int \<Rightarrow> vout_state \<Rightarrow> nat option \<times> vout_state" where
  "prepare_subpicture alloc ty sz st =
     (case ty of
        TEXT_SUBPICTURE \<Rightarrow> libc_memalign alloc 16 (sz + 1) st
      | DVD_SUBPICTURE \<Rightarrow> libc_memalign alloc 16 sz st
      | _ \<Rightarrow> (None, intf_ErrMsg (Unknown_type ty) st))"

definition vout_CreateSubPicture ::
  "allocator \<Rightarrow> subpicture_type \<Rightarrow> int \<Rightarrow> vout_state \<Rightarrow> (create_error + nat) \<times> vout_state" where
  "vout_CreateSubPicture alloc ty sz st =
     (let pool = p_subpicture st in
      case create_loop pool ty sz 0 None None of
        Reuse i \<Rightarrow>
          (Inr i, st\<lparr>p_subpicture := pool[i := (pool ! i)\<lparr>i_status := RESERVED_SUBPICTURE\<rparr>]\<rparr>)
      | Scanned p_free_subpic p_destroyed_subpic \<Rightarrow>
          (let (st1, p_free1) =
                 (case (p_free_subpic, p_destroyed_subpic) of
                    (None, Some d) \<Rightarrow> (libc_free (p_data (pool ! d)) st, Some d)
                  | _ \<Rightarrow> (st, p_free_subpic))
           in case p_free1 of
                None \<Rightarrow> (Inl PoolFull, intf_ErrMsg Heap_is_full st1)
              | Some f \<Rightarrow>
                  (let (p, st2) = prepare_subpicture alloc ty sz st1;
                       sp = (p_subpicture st2 ! f)\<lparr>p_data := p\<rparr>
                   in if p \<noteq> None
                      then (Inr f,
                            st2\<lparr>p_subpicture := (p_subpicture st2)
                                  [f := sp\<lparr>i_type := ty, i_status := RESERVED_SUBPICTURE,
                                          i_size := sz, i_x := 0, i_y := 0,
                                          i_width := 0, i_height := 0\<rparr>]\<rparr>)
                      else (Inl AllocationFailed,
                            intf_ErrMsg Allocation_returned_ENOMEM
                              (st2\<lparr>p_subpicture := (p_subpicture st2)
                                     [f := sp\<lparr>i_type := EMPTY_SUBPICTURE,
                                             i_status := FREE_SUBPICTURE\<rparr>]\<rparr>)))))"

subsection \<open>vout_SortSubPictures\<close>

text \<open>The state of the loop: \<^verbatim>\<open>p_vout\<close> with the rest of the program state, and the three locals.\<close>

record sort_state =
  p_vout :: vout_state
  p_subpic :: "nat option"
  p_ephemer :: "nat option"
  ephemer_date :: int

definition set_p_next :: "nat \<Rightarrow> nat option \<Rightarrow> vout_state \<Rightarrow> vout_state" where
  "set_p_next i nx st =
     st\<lparr>p_subpicture := (p_subpicture st)[i := (p_subpicture st ! i)\<lparr>p_next := nx\<rparr>]\<rparr>"

text \<open>\<^verbatim>\<open>x->p_next = p_subpic; p_subpic = x;\<close>\<close>

definition link_subpic :: "nat \<Rightarrow> sort_state \<Rightarrow> sort_state" where
  "link_subpic x s = s\<lparr>p_vout := set_p_next x (p_subpic s) (p_vout s), p_subpic := Some x\<rparr>"

text \<open>
  \<^verbatim>\<open>if( !ephemer_date || ephemer_date > p_subpic->i_start ) ephemer_date = p_subpic->i_start;\<close>
  where \<^verbatim>\<open>p_subpic\<close> is the slot that has just been linked.
\<close>

definition register_date :: "sort_state \<Rightarrow> sort_state" where
  "register_date s =
     (let start = i_start (p_subpicture (p_vout s) ! the (p_subpic s))
      in if ephemer_date s = 0 \<or> ephemer_date s > start
         then s\<lparr>ephemer_date := start\<rparr> else s)"

text \<open>One turn of the \<^verbatim>\<open>for\<close> loop; each \<^verbatim>\<open>continue\<close> is a branch that returns.\<close>

definition sort_body :: "int \<Rightarrow> nat \<Rightarrow> sort_state \<Rightarrow> sort_state" where
  "sort_body display_date i_index s =
     (let sp = p_subpicture (p_vout s) ! i_index in
      if i_status sp = READY_SUBPICTURE then
        if i_type sp = DVD_SUBPICTURE then
          if display_date > i_stop sp
          then s\<lparr>p_vout := vout_DestroySubPicture i_index (p_vout s)\<rparr>
          else if display_date < i_start sp
          then s
          else if b_ephemer sp then
            (if p_ephemer s = None
             then s\<lparr>p_ephemer := Some i_index\<rparr>
             else if i_start sp < i_start (p_subpicture (p_vout s) ! the (p_ephemer s))
             then register_date ((link_subpic (the (p_ephemer s)) s)\<lparr>p_ephemer := Some i_index\<rparr>)
             else register_date (link_subpic i_index s))
          else register_date (link_subpic i_index s)
        else link_subpic i_index s
      else s)"

function sort_loop :: "int \<Rightarrow> nat \<Rightarrow> nat \<Rightarrow> sort_state \<Rightarrow> sort_state" where
  "sort_loop display_date n i_index s =
     (if i_index < n
      then sort_loop display_date n (Suc i_index) (sort_body display_date i_index s)
      else s)"
  by pat_completeness auto
termination
  by (relation "measure (\<lambda>(d, n, i, s). n - i)") auto

declare sort_loop.simps [simp del]

text \<open>The scan of all the slots, from the initial values of the locals.\<close>

definition sort_scan :: "int \<Rightarrow> vout_state \<Rightarrow> sort_state" where
  "sort_scan display_date st =
     sort_loop display_date (length (p_subpicture st)) 0
       \<lparr>p_vout = st, p_subpic = None, p_ephemer = None, ephemer_date = 0\<rparr>"

definition vout_SortSubPictures :: "int \<Rightarrow> vout_state \<Rightarrow> nat option \<times> vout_state" where
  "vout_SortSubPictures display_date st =
     (let s = sort_scan display_date st in
      case p_ephemer s of
        None \<Rightarrow> (p_subpic s, p_vout s)
      | Some e \<Rightarrow>
          if i_start (p_subpicture (p_vout s) ! e) < ephemer_date s
          then (p_subpic s, vout_DestroySubPicture e (p_vout s))
          else (Some e, set_p_next e (p_subpic s) (p_vout s)))"

text \<open>
  The list a \<^verbatim>\<open>subpicture_t *\<close> heads, as \<^verbatim>\<open>vout_RenderSubPictures\<close> walks it:
  \<^verbatim>\<open>while( p_subpic != NULL ) { ...; p_subpic = p_subpic->p_next; }\<close>. The walk has fuel, since
  the \<^verbatim>\<open>p_next\<close> fields of an arbitrary array may form a cycle; \<open>None\<close> says that the
  fuel ran out or that a pointer left the array.
\<close>

fun subpic_list :: "subpicture list \<Rightarrow> nat \<Rightarrow> nat option \<Rightarrow> nat list option" where
  "subpic_list pool fuel None = Some []"
| "subpic_list pool 0 (Some x) = None"
| "subpic_list pool (Suc fuel) (Some x) =
     (if x < length pool
      then map_option (Cons x) (subpic_list pool fuel (p_next (pool ! x)))
      else None)"

subsection \<open>vout_RenderSPU\<close>

text \<open>
  The picture is the memory at \<^verbatim>\<open>p_pic->p->p_pixels\<close>, a byte for each offset from that
  pointer: the source checks no bound. A \<^verbatim>\<open>u8 *\<close> is its offset, and adding an \<^verbatim>\<open>int\<close> to
  a pointer does not wrap. \<^verbatim>\<open>memset\<close> takes its count as a \<^verbatim>\<open>size_t\<close>, 64 bits without
  sign, so a negative \<^verbatim>\<open>int\<close> is a count of nearly \<open>2 ^ 64\<close> bytes; it fills \<open>n\<close> bytes
  from offset \<open>a\<close>.
\<close>

text \<open>
  The locals \<^verbatim>\<open>i_x\<close>, \<^verbatim>\<open>i_y\<close>, \<^verbatim>\<open>i_width\<close> and \<^verbatim>\<open>i_height\<close> of the function are
  \<open>ix\<close>, \<open>iy\<close>, \<open>width\<close> and \<open>height\<close> here: the fields of the subpicture have
  their names.
\<close>

type_synonym pixels = "int \<Rightarrow> u8"

definition c_size_t :: "int \<Rightarrow> int" where
  "c_size_t n = take_bit 64 n"

definition memset :: "int \<Rightarrow> u8 \<Rightarrow> int \<Rightarrow> pixels \<Rightarrow> pixels" where
  "memset a c n pix = (\<lambda>k. if a \<le> k \<and> k < a + c_size_t n then c else pix k)"

definition p_trsp :: "nat \<Rightarrow> u8" where
  "p_trsp c = [0x00, 0xff, 0xff, 0xff] ! c"

definition p_clut8 :: "nat \<Rightarrow> u8" where
  "p_clut8 c = [0xaa, 0x44, 0xff, 0x88] ! c"

definition p_clut16 :: "nat \<Rightarrow> u16" where
  "p_clut16 c = [0xaaaa, 0x4444, 0xffff, 0x8888] ! c"

text \<open>\<^verbatim>\<open>*p_source & 0x3\<close> and \<^verbatim>\<open>*p_source >> 2\<close>, the unit promoted to \<^verbatim>\<open>int\<close>.\<close>

definition rle_color :: "u16 \<Rightarrow> nat" where
  "rle_color w = unat (w AND 0x3)"

definition rle_len :: "u16 \<Rightarrow> int" where
  "rle_len w = uint (drop_bit 2 w)"

text \<open>
  C's division truncates towards zero. It has no result (\<open>None\<close>) for a zero divisor
  and for \<open>- 2 ^ 31\<close> divided by \<open>- 1\<close>, where the processor traps.
  \<^verbatim>\<open>x >> 6\<close> on an \<^verbatim>\<open>int\<close> is \<open>drop_bit 6 x\<close>, the arithmetic shift, and
  \<^verbatim>\<open>x << 6\<close> is \<open>c_int (push_bit 6 x)\<close>.
\<close>

definition c_div :: "int \<Rightarrow> int \<Rightarrow> int option" where
  "c_div a b = (if b = 0 \<or> (a = - (2 ^ 31) \<and> b = - 1) then None else Some (a sdiv b))"

subsubsection \<open>I420 target, no scaling\<close>

text \<open>The \<^verbatim>\<open>switch\<close> on the transparency of one unit; it gives the new \<^verbatim>\<open>i_x\<close> and picture.\<close>

definition i420_run :: "int \<Rightarrow> int \<Rightarrow> u16 \<Rightarrow> int \<Rightarrow> pixels \<Rightarrow> int \<times> pixels" where
  "i420_run p_dest iy w ix pix =
     (let i_color = rle_color w in
      if p_trsp i_color = 0x00 then (c_int (ix - rle_len w), pix)
      else if p_trsp i_color = 0xff then
        (let i_len = rle_len w
         in (c_int (ix - i_len), memset (p_dest - ix - iy) (p_clut8 i_color) i_len pix))
      else
        (let i_len = rle_len w
         in (c_int (ix - i_len), memset (p_dest - ix - iy) (p_clut8 i_color) i_len pix)))"

text \<open>
  \<^verbatim>\<open>for( i_x = p_spu->i_width ; i_x ; )\<close>: every turn reads one unit of the source. The
  units are a list, and reading after its end is \<open>None\<close>.
\<close>

fun i420_line :: "int \<Rightarrow> int \<Rightarrow> u16 list \<Rightarrow> int \<Rightarrow> pixels \<Rightarrow> (u16 list \<times> pixels) option" where
  "i420_line p_dest iy [] ix pix = (if ix = 0 then Some ([], pix) else None)"
| "i420_line p_dest iy (w # p_source) ix pix =
     (if ix = 0 then Some (w # p_source, pix)
      else (case i420_run p_dest iy w ix pix of
              (ix', pix') \<Rightarrow> i420_line p_dest iy p_source ix' pix'))"

text \<open>
  \<^verbatim>\<open>for( i_y = p_spu->i_height * p_vout->output.i_width ; i_y ; i_y -= p_vout->output.i_width )\<close>.
  \<open>None\<close> is a read after the end of the source, or a loop that never ends: \<open>i_y\<close> wraps
  around and may never be 0.
\<close>

partial_function (option) i420_lines ::
  "int \<Rightarrow> int \<Rightarrow> int \<Rightarrow> int \<Rightarrow> u16 list \<times> pixels \<Rightarrow> (u16 list \<times> pixels) option" where
  "i420_lines out_width p_dest spu_width iy sp =
     (if iy = 0 then Some sp
      else Option.bind (i420_line p_dest iy (fst sp) spu_width (snd sp))
             (\<lambda>sp'. i420_lines out_width p_dest spu_width (c_int (iy - out_width)) sp'))"

declare i420_lines.simps [code]

subsubsection \<open>RV16 target, scaling\<close>

text \<open>One unit of a source line that covers at most one line of the picture.\<close>

definition rv16_run :: "int \<Rightarrow> int \<Rightarrow> int \<Rightarrow> u16 \<Rightarrow> int \<Rightarrow> pixels \<Rightarrow> int \<times> pixels" where
  "rv16_run p_dest i_xscale i_yreal w ix pix =
     (let i_color = rle_color w in
      if p_trsp i_color = 0x00 then (c_int (ix - c_int (i_xscale * rle_len w)), pix)
      else if p_trsp i_color = 0xff then
        (let i_len = c_int (i_xscale * rle_len w)
         in (c_int (ix - i_len),
             memset (p_dest - c_int (2 * drop_bit 6 ix) + i_yreal) (ucast (p_clut16 i_color))
               (c_int (2 * c_int (drop_bit 6 i_len + 1))) pix))
      else
        (let i_len = c_int (i_xscale * rle_len w)
         in (c_int (ix - i_len),
             memset (p_dest - c_int (2 * drop_bit 6 ix) + i_yreal) (ucast (p_clut16 i_color))
               (c_int (2 * c_int (drop_bit 6 i_len + 1))) pix)))"

fun rv16_line ::
  "int \<Rightarrow> int \<Rightarrow> int \<Rightarrow> u16 list \<Rightarrow> int \<Rightarrow> pixels \<Rightarrow> (u16 list \<times> pixels) option" where
  "rv16_line p_dest i_xscale i_yreal [] ix pix = (if ix = 0 then Some ([], pix) else None)"
| "rv16_line p_dest i_xscale i_yreal (w # p_source) ix pix =
     (if ix = 0 then Some (w # p_source, pix)
      else (case rv16_run p_dest i_xscale i_yreal w ix pix of
              (ix', pix') \<Rightarrow> rv16_line p_dest i_xscale i_yreal p_source ix' pix'))"

text \<open>
  \<^verbatim>\<open>for( i_ytmp = i_yreal ; i_ytmp < i_ynext ; i_ytmp += p_vout->output.i_width * 2 ) memset( ... )\<close>:
  the same run on every line of the picture that the source line covers. It never ends
  (\<open>None\<close>) when \<open>i_ytmp\<close> stays below \<open>i_ynext\<close>, as it does for an output of width 0.
\<close>

partial_function (option) rv16_fill ::
  "int \<Rightarrow> int \<Rightarrow> int \<Rightarrow> u8 \<Rightarrow> int \<Rightarrow> int \<Rightarrow> pixels \<Rightarrow> pixels option" where
  "rv16_fill out_width i_ynext a c n i_ytmp pix =
     (if i_ytmp < i_ynext
      then rv16_fill out_width i_ynext a c n (c_int (i_ytmp + c_int (out_width * 2)))
             (memset (a + i_ytmp) c n pix)
      else Some pix)"

declare rv16_fill.simps [code]

definition rv16_run_lines ::
  "int \<Rightarrow> int \<Rightarrow> int \<Rightarrow> int \<Rightarrow> int \<Rightarrow> u16 \<Rightarrow> int \<Rightarrow> pixels \<Rightarrow> (int \<times> pixels) option" where
  "rv16_run_lines out_width p_dest i_xscale i_yreal i_ynext w ix pix =
     (let i_color = rle_color w in
      if p_trsp i_color = 0x00 then Some (c_int (ix - c_int (i_xscale * rle_len w)), pix)
      else if p_trsp i_color = 0xff then
        (let i_len = c_int (i_xscale * rle_len w)
         in map_option (Pair (c_int (ix - i_len)))
              (rv16_fill out_width i_ynext (p_dest - c_int (2 * drop_bit 6 ix))
                 (ucast (p_clut16 i_color)) (c_int (2 * c_int (drop_bit 6 i_len + 1))) i_yreal pix))
      else
        (let i_len = c_int (i_xscale * rle_len w)
         in map_option (Pair (c_int (ix - i_len)))
              (rv16_fill out_width i_ynext (p_dest - c_int (2 * drop_bit 6 ix))
                 (ucast (p_clut16 i_color)) (c_int (2 * c_int (drop_bit 6 i_len + 1))) i_yreal pix)))"

fun rv16_line_lines ::
  "int \<Rightarrow> int \<Rightarrow> int \<Rightarrow> int \<Rightarrow> int \<Rightarrow> u16 list \<Rightarrow> int \<Rightarrow> pixels \<Rightarrow> (u16 list \<times> pixels) option"
where
  "rv16_line_lines out_width p_dest i_xscale i_yreal i_ynext [] ix pix =
     (if ix = 0 then Some ([], pix) else None)"
| "rv16_line_lines out_width p_dest i_xscale i_yreal i_ynext (w # p_source) ix pix =
     (if ix = 0 then Some (w # p_source, pix)
      else (case rv16_run_lines out_width p_dest i_xscale i_yreal i_ynext w ix pix of
              None \<Rightarrow> None
            | Some (ix', pix') \<Rightarrow>
                rv16_line_lines out_width p_dest i_xscale i_yreal i_ynext p_source ix' pix'))"

text \<open>
  \<^verbatim>\<open>for( i_y = 0 ; i_y < i_height ; )\<close>, with the choice between one line and several.
  \<^verbatim>\<open>i_yreal\<close> is \<^verbatim>\<open>p_vout->output.i_width * 2 * i_ytmp\<close> and \<^verbatim>\<open>i_ynext\<close> is
  \<^verbatim>\<open>p_vout->output.i_width * 2 * i_y >> 6\<close>, where the product comes before the shift.
\<close>

partial_function (option) rv16_lines ::
  "int \<Rightarrow> int \<Rightarrow> int \<Rightarrow> int \<Rightarrow> int \<Rightarrow> int \<Rightarrow> int \<Rightarrow> u16 list \<times> pixels \<Rightarrow> (u16 list \<times> pixels) option"
where
  "rv16_lines out_width p_dest i_xscale i_yscale width height iy0 sp =
     (if iy0 < height then
        (let i_ytmp = drop_bit 6 iy0;
             iy = c_int (iy0 + i_yscale)
         in Option.bind
              (if c_int (i_ytmp + 1) \<ge> drop_bit 6 iy
               then rv16_line p_dest i_xscale (c_int (c_int (out_width * 2) * i_ytmp))
                      (fst sp) width (snd sp)
               else rv16_line_lines out_width p_dest i_xscale
                      (c_int (c_int (out_width * 2) * i_ytmp))
                      (drop_bit 6 (c_int (c_int (out_width * 2) * iy))) (fst sp) width (snd sp))
              (\<lambda>sp'. rv16_lines out_width p_dest i_xscale i_yscale width height iy sp'))
      else Some sp)"

declare rv16_lines.simps [code]

text \<open>
  The function itself. \<^verbatim>\<open>p_source\<close> is the block at \<^verbatim>\<open>p_spu->p_data\<close>; a pointer that is
  \<^verbatim>\<open>NULL\<close> or not live has nothing to read. The result is \<open>None\<close> when a loop reads
  after the end of the source or never ends, or when a division has no result.
\<close>

definition spu_source :: "vout_state \<Rightarrow> subpicture \<Rightarrow> u16 list" where
  "spu_source st p_spu =
     (case p_data p_spu of None \<Rightarrow> []
      | Some a \<Rightarrow> (case heap st a of None \<Rightarrow> [] | Some units \<Rightarrow> units))"

definition render_i420 :: "vout_state \<Rightarrow> pixels \<Rightarrow> subpicture \<Rightarrow> pixels option" where
  "render_i420 st pix p_spu =
     (let p_dest = i_x p_spu + i_width p_spu
                     + c_int (output_i_width st * c_int (i_y p_spu + i_height p_spu))
      in map_option snd
           (i420_lines (output_i_width st) p_dest (i_width p_spu)
              (c_int (i_height p_spu * output_i_width st)) (spu_source st p_spu, pix)))"

definition render_rv16 :: "vout_state \<Rightarrow> pixels \<Rightarrow> subpicture \<Rightarrow> pixels option" where
  "render_rv16 st pix p_spu =
     (case c_div (c_int (push_bit 6 (output_i_width st))) (render_i_width st) of
        None \<Rightarrow> None
      | Some i_xscale \<Rightarrow>
     (case c_div (c_int (push_bit 6 (output_i_height st))) (render_i_height st) of
        None \<Rightarrow> None
      | Some i_yscale \<Rightarrow>
          (let width = c_int (i_width p_spu * i_xscale);
               height = c_int (i_height p_spu * i_yscale);
               p_dest = c_int (drop_bit 6 width * 2)
                        + c_int (drop_bit 6 (c_int (i_x p_spu * i_xscale)) * 2)
                        + c_int (c_int (drop_bit 6 (c_int (i_y p_spu * i_yscale))
                                        * output_i_width st) * 2)
           in map_option snd
                (rv16_lines (output_i_width st) p_dest i_xscale i_yscale width height 0
                   (spu_source st p_spu, pix)))))"

definition vout_RenderSPU :: "vout_state \<Rightarrow> pixels \<Rightarrow> subpicture \<Rightarrow> (pixels \<times> vout_state) option" where
  "vout_RenderSPU st pix p_spu =
     (case output_i_chroma st of
        FOURCC_I420 \<Rightarrow> map_option (\<lambda>pix'. (pix', st)) (render_i420 st pix p_spu)
      | FOURCC_IYUV \<Rightarrow> map_option (\<lambda>pix'. (pix', st)) (render_i420 st pix p_spu)
      | FOURCC_YV12 \<Rightarrow> map_option (\<lambda>pix'. (pix', st)) (render_i420 st pix p_spu)
      | FOURCC_RV16 \<Rightarrow> map_option (\<lambda>pix'. (pix', st)) (render_rv16 st pix p_spu)
      | FOURCC_OTHER \<Rightarrow> Some (pix, intf_ErrMsg Unknown_chroma st))"

subsection \<open>vout_RenderSubPictures\<close>

text \<open>
  The walk of the list, with the picture and the state. The text branch of the source is
  compiled out (\<^verbatim>\<open>#if 0\<close>), so every type but the DVD one is reported. \<open>None\<close> is a
  rendering that fails or a list that never ends.
\<close>

partial_function (option) vout_RenderSubPictures ::
  "nat option \<Rightarrow> pixels \<times> vout_state \<Rightarrow> (pixels \<times> vout_state) option" where
  "vout_RenderSubPictures p ps =
     (case p of
        None \<Rightarrow> Some ps
      | Some x \<Rightarrow>
          Option.bind
            (case i_type (p_subpicture (snd ps) ! x) of
               DVD_SUBPICTURE \<Rightarrow> vout_RenderSPU (snd ps) (fst ps) (p_subpicture (snd ps) ! x)
             | _ \<Rightarrow> Some (fst ps,
                    intf_ErrMsg (Unknown_subpicture x (i_type (p_subpicture (snd ps) ! x))) (snd ps)))
            (\<lambda>ps'. vout_RenderSubPictures (p_next (p_subpicture (snd ps) ! x)) ps'))"

declare vout_RenderSubPictures.simps [code]

subsection \<open>Concrete states\<close>

text \<open>A zeroed slot, and a state around an array of slots with nothing on the heap.\<close>

definition slot0 :: subpicture where
  "slot0 = \<lparr>i_type = EMPTY_SUBPICTURE, i_status = FREE_SUBPICTURE, i_size = 0, p_next = None,
            i_start = 0, i_stop = 0, b_ephemer = False, i_x = 0, i_y = 0, i_width = 0,
            i_height = 0, p_data = None\<rparr>"

definition vout0 :: "subpicture list \<Rightarrow> vout_state" where
  "vout0 pool = \<lparr>p_subpicture = pool, output_i_width = 720, output_i_height = 480,
                 output_i_chroma = FOURCC_I420, render_i_width = 720, render_i_height = 480,
                 heap = Map.empty, intf_msgs = []\<rparr>"

text \<open>A ready DVD subpicture with its dates.\<close>

definition ready_dvd :: "bool \<Rightarrow> int \<Rightarrow> int \<Rightarrow> subpicture" where
  "ready_dvd e start stop = slot0\<lparr>i_type := DVD_SUBPICTURE, i_status := READY_SUBPICTURE,
                            i_start := start, i_stop := stop, b_ephemer := e\<rparr>"

text \<open>An allocator that always fails, and one that gives block 1 with nothing in it.\<close>

definition no_memory :: allocator where
  "no_memory al n h = None"

definition block1 :: allocator where
  "block1 al n h = Some (1, [])"

text \<open>A picture with every byte 0.\<close>

definition black :: pixels where
  "black k = 0"

text \<open>
  A subpicture of one line of \<open>n\<close> pixels at the origin, with its units in block 1 of the
  heap, for an output of 720 by 480 without scaling, and for an output of 360 by 480 that
  is rendered at 720 by 480.
\<close>

definition spu_line :: "int \<Rightarrow> subpicture" where
  "spu_line n = slot0\<lparr>i_type := DVD_SUBPICTURE, i_status := READY_SUBPICTURE,
                       i_width := n, i_height := 1, p_data := Some 1\<rparr>"

definition vout_i420 :: "u16 list \<Rightarrow> vout_state" where
  "vout_i420 units = (vout0 [])\<lparr>heap := [1 \<mapsto> units]\<rparr>"

definition vout_rv16 :: "u16 list \<Rightarrow> vout_state" where
  "vout_rv16 units = (vout0 [])\<lparr>output_i_width := 360, output_i_chroma := FOURCC_RV16,
                                heap := [1 \<mapsto> units]\<rparr>"

text \<open>Arrays of slots for the concrete instances of the pool operations.\<close>

definition pool_reuse :: "subpicture list" where
  "pool_reuse =
     [slot0\<lparr>i_status := DESTROYED_SUBPICTURE\<rparr>,
      slot0\<lparr>i_status := DESTROYED_SUBPICTURE, i_type := DVD_SUBPICTURE, i_size := 100,
            p_data := Some 7, i_x := 3, i_y := 4, i_width := 5, i_height := 6\<rparr>,
      slot0\<lparr>i_status := DESTROYED_SUBPICTURE, i_type := DVD_SUBPICTURE, i_size := 200,
            p_data := Some 8\<rparr>]"

definition pool_full :: "subpicture list" where
  "pool_full = [slot0\<lparr>i_status := RESERVED_SUBPICTURE\<rparr>, slot0\<lparr>i_status := READY_SUBPICTURE\<rparr>]"

definition pool_free :: "subpicture list" where
  "pool_free = [slot0\<lparr>i_status := READY_SUBPICTURE\<rparr>,
                slot0\<lparr>i_x := 3, i_y := 4, i_width := 5, i_height := 6\<rparr>]"



text \<open>
  Arrays of ready DVD subpictures for the selection: three ephemer ones A, B and C that
  start at 10, 20 and 15, in two orders; an ephemer one with a later one that is not;
  two that are not ephemer, the first starting at 0; a text subpicture before a DVD one.
\<close>

definition pool_abc :: "subpicture list" where
  "pool_abc = [ready_dvd True 10 100, ready_dvd True 20 100, ready_dvd True 15 100]"

definition pool_bac :: "subpicture list" where
  "pool_bac = [ready_dvd True 20 100, ready_dvd True 10 100, ready_dvd True 15 100]"

definition pool_cutoff :: "subpicture list" where
  "pool_cutoff = [ready_dvd True 10 20, ready_dvd False 15 30]"

definition pool_zero :: "subpicture list" where
  "pool_zero = [ready_dvd False 0 100, ready_dvd False 5 100]"

definition pool_text :: "subpicture list" where
  "pool_text = [slot0\<lparr>i_type := TEXT_SUBPICTURE, i_status := READY_SUBPICTURE, i_start := 1\<rparr>,
                ready_dvd False 5 100]"

section \<open>Notions for the verification\<close>

subsection \<open>For the arithmetic\<close>

text \<open>The integers that an \<^verbatim>\<open>int\<close> holds.\<close>

definition is_int :: "int \<Rightarrow> bool" where
  "is_int x \<longleftrightarrow> - (2 ^ 31) \<le> x \<and> x < 2 ^ 31"

subsection \<open>For vout_RenderSPU\<close>

text \<open>
  The decoding of a line in the words of the specification. A unit is its class, bits 0
  to 1, and its run length, bits 2 to 15. A unit of class 0 is transparent: it only moves
  the cursor, by \<open>adv\<close> of its run length; a unit of another class is painted by
  \<open>paint\<close> first, with the cursor, the class and \<open>adv\<close> of the run length. The cursor is
  an \<^verbatim>\<open>int\<close> that counts down, and the line ends when it is 0.
\<close>

definition unit_class :: "u16 \<Rightarrow> nat" where
  "unit_class w = unat w mod 4"

definition unit_run :: "u16 \<Rightarrow> int" where
  "unit_run w = uint w div 4"

fun draw_units ::
  "(int \<Rightarrow> int) \<Rightarrow> (int \<Rightarrow> nat \<Rightarrow> int \<Rightarrow> pixels \<Rightarrow> pixels option) \<Rightarrow>
   u16 list \<Rightarrow> int \<Rightarrow> pixels \<Rightarrow> (u16 list \<times> pixels) option" where
  "draw_units adv paint [] x pix = (if x = 0 then Some ([], pix) else None)"
| "draw_units adv paint (w # ws) x pix =
     (if x = 0 then Some (w # ws, pix)
      else if unit_class w = 0
      then draw_units adv paint ws (c_int (x - adv (unit_run w))) pix
      else (case paint x (unit_class w) (adv (unit_run w)) pix of
              None \<Rightarrow> None
            | Some pix' \<Rightarrow> draw_units adv paint ws (c_int (x - adv (unit_run w))) pix'))"

text \<open>
  The run length as the cursor counts it: as it is without scaling, and times the
  horizontal scale, in 64ths of a pixel, with scaling.
\<close>

definition unscaled :: "int \<Rightarrow> int" where
  "unscaled n = n"

definition scaled :: "int \<Rightarrow> int \<Rightarrow> int" where
  "scaled i_xscale n = c_int (i_xscale * n)"

text \<open>
  What the source paints for a unit that is not transparent: \<open>n\<close> bytes from the
  cursor without scaling, and \<open>(n >> 6) + 1\<close> pixels of two bytes with scaling, on one
  line of the picture or on every line from \<^verbatim>\<open>i_yreal\<close> up to \<^verbatim>\<open>i_ynext\<close>.
\<close>

definition paint_i420 :: "int \<Rightarrow> int \<Rightarrow> int \<Rightarrow> nat \<Rightarrow> int \<Rightarrow> pixels \<Rightarrow> pixels option" where
  "paint_i420 p_dest iy x c n pix = Some (memset (p_dest - x - iy) (p_clut8 c) n pix)"

definition paint_rv16 :: "int \<Rightarrow> int \<Rightarrow> int \<Rightarrow> nat \<Rightarrow> int \<Rightarrow> pixels \<Rightarrow> pixels option" where
  "paint_rv16 p_dest i_yreal x c n pix =
     Some (memset (p_dest - c_int (2 * drop_bit 6 x) + i_yreal) (ucast (p_clut16 c))
             (c_int (2 * c_int (drop_bit 6 n + 1))) pix)"

definition paint_rv16_lines ::
  "int \<Rightarrow> int \<Rightarrow> int \<Rightarrow> int \<Rightarrow> int \<Rightarrow> nat \<Rightarrow> int \<Rightarrow> pixels \<Rightarrow> pixels option" where
  "paint_rv16_lines out_width p_dest i_yreal i_ynext x c n pix =
     rv16_fill out_width i_ynext (p_dest - c_int (2 * drop_bit 6 x)) (ucast (p_clut16 c))
       (c_int (2 * c_int (drop_bit 6 n + 1))) i_yreal pix"

text \<open>
  The lines of a subpicture, by their number. Without scaling, line \<open>r\<close> from the bottom
  is drawn with \<^verbatim>\<open>i_y\<close> at \<open>r\<close> times the width of the output. With scaling, \<open>y\<close> is the
  vertical position in 64ths of a line, and a line of the source covers one line of the
  picture or several.
\<close>

fun unscaled_rows ::
  "int \<Rightarrow> int \<Rightarrow> int \<Rightarrow> nat \<Rightarrow> u16 list \<times> pixels \<Rightarrow> (u16 list \<times> pixels) option" where
  "unscaled_rows out_width p_dest width 0 sp = Some sp"
| "unscaled_rows out_width p_dest width (Suc r) sp =
     Option.bind
       (draw_units unscaled (paint_i420 p_dest (int (Suc r) * out_width)) (fst sp) width (snd sp))
       (unscaled_rows out_width p_dest width r)"

fun scaled_rows ::
  "int \<Rightarrow> int \<Rightarrow> int \<Rightarrow> int \<Rightarrow> int \<Rightarrow> nat \<Rightarrow> int \<Rightarrow> u16 list \<times> pixels \<Rightarrow>
   (u16 list \<times> pixels) option" where
  "scaled_rows out_width p_dest i_xscale i_yscale width 0 y sp = Some sp"
| "scaled_rows out_width p_dest i_xscale i_yscale width (Suc r) y sp =
     Option.bind
       (if drop_bit 6 (y + i_yscale) \<le> drop_bit 6 y + 1
        then draw_units (scaled i_xscale)
               (paint_rv16 p_dest (c_int (c_int (out_width * 2) * drop_bit 6 y)))
               (fst sp) width (snd sp)
        else draw_units (scaled i_xscale)
               (paint_rv16_lines out_width p_dest (c_int (c_int (out_width * 2) * drop_bit 6 y))
                  (drop_bit 6 (c_int (c_int (out_width * 2) * (y + i_yscale)))))
               (fst sp) width (snd sp))
       (scaled_rows out_width p_dest i_xscale i_yscale width r (y + i_yscale))"

subsection \<open>For vout_CreateSubPicture\<close>

text \<open>The test of the fast path: a destroyed slot of the same type that is large enough.\<close>

definition reusable :: "subpicture_type \<Rightarrow> int \<Rightarrow> subpicture \<Rightarrow> bool" where
  "reusable ty sz sp = (i_status sp = DESTROYED_SUBPICTURE \<and> i_type sp = ty \<and> i_size sp \<ge> sz)"

subsection \<open>For vout_SortSubPictures\<close>

text \<open>The state of the loop when \<^verbatim>\<open>i_index\<close> is \<open>k\<close>: the first \<open>k\<close> slots have been seen.\<close>

definition scan_upto :: "int \<Rightarrow> vout_state \<Rightarrow> nat \<Rightarrow> sort_state" where
  "scan_upto display_date st k =
     sort_loop display_date k 0 \<lparr>p_vout = st, p_subpic = None, p_ephemer = None, ephemer_date = 0\<rparr>"

text \<open>
  What the scan computes, without the pointers: the list of the slots linked so far (the
  last one linked first), the candidate, and the date. \<open>in_window\<close> is the test that the
  two date comparisons of the source leave.
\<close>

definition in_window :: "int \<Rightarrow> subpicture \<Rightarrow> bool" where
  "in_window d sp = (\<not> d > i_stop sp \<and> \<not> d < i_start sp)"

definition register_start :: "int \<Rightarrow> int \<Rightarrow> int" where
  "register_start date start = (if date = 0 \<or> date > start then start else date)"

definition scan_step ::
  "int \<Rightarrow> subpicture list \<Rightarrow> nat \<Rightarrow> nat list \<times> nat option \<times> int \<Rightarrow> nat list \<times> nat option \<times> int"
where
  "scan_step d pool k a =
     (case a of (linked, cand, date) \<Rightarrow>
        if i_status (pool ! k) \<noteq> READY_SUBPICTURE then a
        else if i_type (pool ! k) \<noteq> DVD_SUBPICTURE then (k # linked, cand, date)
        else if \<not> in_window d (pool ! k) then a
        else if b_ephemer (pool ! k) then
          (case cand of
             None \<Rightarrow> (linked, Some k, date)
           | Some e \<Rightarrow>
               if i_start (pool ! k) < i_start (pool ! e)
               then (e # linked, Some k, register_start date (i_start (pool ! e)))
               else (k # linked, cand, register_start date (i_start (pool ! k))))
        else (k # linked, cand, register_start date (i_start (pool ! k))))"

primrec scan_list :: "int \<Rightarrow> subpicture list \<Rightarrow> nat \<Rightarrow> nat list \<times> nat option \<times> int" where
  "scan_list d pool 0 = ([], None, 0)"
| "scan_list d pool (Suc k) = scan_step d pool k (scan_list d pool k)"

text \<open>A list of slots laid out in the array through \<open>p_next\<close>, from the pointer \<open>p\<close>.\<close>

fun links :: "subpicture list \<Rightarrow> nat option \<Rightarrow> nat list \<Rightarrow> bool" where
  "links pool p [] = (p = None)"
| "links pool p (x # xs) = (p = Some x \<and> x < length pool \<and> links pool (p_next (pool ! x)) xs)"

text \<open>
  The three kinds of ready slots: the ones that the date tests keep (every ready slot
  that is not a DVD one is kept), the ones that they destroy, and the ephemer ones among
  the kept. \<open>head_ptr\<close> is the pointer to the first slot of a list.
\<close>

definition shown :: "int \<Rightarrow> subpicture \<Rightarrow> bool" where
  "shown d sp = (i_status sp = READY_SUBPICTURE \<and>
                 (i_type sp = DVD_SUBPICTURE \<longrightarrow> in_window d sp))"

definition expired :: "int \<Rightarrow> subpicture \<Rightarrow> bool" where
  "expired d sp = (i_status sp = READY_SUBPICTURE \<and> i_type sp = DVD_SUBPICTURE \<and> d > i_stop sp)"

definition fresh_ephemer :: "int \<Rightarrow> subpicture \<Rightarrow> bool" where
  "fresh_ephemer d sp = (i_status sp = READY_SUBPICTURE \<and> i_type sp = DVD_SUBPICTURE \<and>
                         in_window d sp \<and> b_ephemer sp)"

definition head_ptr :: "nat list \<Rightarrow> nat option" where
  "head_ptr xs = (case xs of [] \<Rightarrow> None | x # _ \<Rightarrow> Some x)"

text \<open>
  The array after \<open>k\<close> turns, against the array at the call: a slot differs in its
  \<open>p_next\<close> and, when it was seen and too late, in its status.
\<close>

definition slots_after :: "int \<Rightarrow> nat \<Rightarrow> subpicture list \<Rightarrow> subpicture list \<Rightarrow> bool" where
  "slots_after d k pool0 pool =
     (length pool = length pool0 \<and>
      (\<forall>j < length pool0.
         pool ! j = (pool0 ! j)\<lparr>p_next := p_next (pool ! j),
                      i_status := (if j < k \<and> expired d (pool0 ! j) then DESTROYED_SUBPICTURE
                                   else i_status (pool0 ! j))\<rparr>) \<and>
      (\<forall>j. k \<le> j \<and> j < length pool0 \<longrightarrow> pool ! j = pool0 ! j))"

text \<open>The state of the loop that a list, a candidate and a date stand for.\<close>

definition loop_state ::
  "vout_state \<Rightarrow> subpicture list \<Rightarrow> nat list \<times> nat option \<times> int \<Rightarrow> sort_state" where
  "loop_state st pool a =
     (case a of (linked, cand, date) \<Rightarrow>
        \<lparr>p_vout = st\<lparr>p_subpicture := pool\<rparr>, p_subpic = head_ptr linked,
         p_ephemer = cand, ephemer_date = date\<rparr>)"

text \<open>The list that the function returns, in the list form of the scan.\<close>

definition result_list :: "int \<Rightarrow> subpicture list \<Rightarrow> nat list" where
  "result_list d pool =
     (case scan_list d pool (length pool) of
        (linked, cand, date) \<Rightarrow>
          (case cand of
             None \<Rightarrow> linked
           | Some e \<Rightarrow> if i_start (pool ! e) < date then linked else e # linked))"

text \<open>The candidate that the function destroys after the scan.\<close>

definition superseded :: "int \<Rightarrow> subpicture list \<Rightarrow> nat \<Rightarrow> bool" where
  "superseded d pool j =
     (case scan_list d pool (length pool) of
        (linked, cand, date) \<Rightarrow> cand = Some j \<and> i_start (pool ! j) < date)"

text \<open>The DVD slots of a list, the only ones whose start the source registers.\<close>

definition dvd_slots :: "subpicture list \<Rightarrow> nat list \<Rightarrow> nat list" where
  "dvd_slots pool xs = filter (\<lambda>j. i_type (pool ! j) = DVD_SUBPICTURE) xs"

definition starts :: "subpicture list \<Rightarrow> nat list \<Rightarrow> int set" where
  "starts pool xs = set (map (\<lambda>j. i_start (pool ! j)) xs)"

section \<open>Verification\<close>

subsection \<open>The scan of vout_CreateSubPicture\<close>

lemma create_loop_reuse:
  "i \<le> k \<Longrightarrow> k < length pool \<Longrightarrow> reusable ty sz (pool ! k) \<Longrightarrow>
   (\<And>j. i \<le> j \<Longrightarrow> j < k \<Longrightarrow> \<not> reusable ty sz (pool ! j)) \<Longrightarrow>
   create_loop pool ty sz i f d = Reuse k"
proof (induction pool ty sz i f d rule: create_loop.induct)
  case (1 pool ty sz i f d)
  show ?case
  proof (cases "i = k")
    case True
    with "1.prems" show ?thesis
      by (subst create_loop.simps) (simp add: reusable_def)
  next
    case False
    with "1.prems" have lt: "i < k" "i < length pool" and nr: "\<not> reusable ty sz (pool ! i)"
      by auto
    have later: "\<And>j. Suc i \<le> j \<Longrightarrow> j < k \<Longrightarrow> \<not> reusable ty sz (pool ! j)"
      using "1.prems"(4) by simp
    from lt have sk: "Suc i \<le> k" by simp
    note ih = "1.IH"(1)[OF lt(2) _ _ _ sk "1.prems"(2,3) later]
        "1.IH"(2)[OF lt(2) _ _ _ sk "1.prems"(2,3) later]
        "1.IH"(3)[OF lt(2) _ _ sk "1.prems"(2,3) later]
        "1.IH"(4)[OF lt(2) _ _ sk "1.prems"(2,3) later]
    show ?thesis
      using nr lt ih
      by (subst create_loop.simps) (auto simp: reusable_def)
  qed
qed

lemma all_from_split:
  "(\<forall>j. i \<le> j \<and> j < n \<longrightarrow> P j) \<longleftrightarrow> (i < n \<longrightarrow> P i) \<and> (\<forall>j. Suc i \<le> j \<and> j < n \<longrightarrow> P j)"
  for i :: nat
proof -
  have "\<And>j. i \<le> j \<longleftrightarrow> j = i \<or> Suc i \<le> j" by auto
  then show ?thesis by auto
qed

lemma create_loop_scanned:
  "(\<forall>j. i \<le> j \<and> j < length pool \<longrightarrow> \<not> reusable ty sz (pool ! j)) \<Longrightarrow>
   \<exists>f' d'. create_loop pool ty sz i f d = Scanned f' d' \<and>
     (f' = None \<longleftrightarrow> f = None \<and> (\<forall>j. i \<le> j \<and> j < length pool \<longrightarrow> i_status (pool ! j) \<noteq> FREE_SUBPICTURE)) \<and>
     (d' = None \<longleftrightarrow> d = None \<and> (\<forall>j. i \<le> j \<and> j < length pool \<longrightarrow> i_status (pool ! j) \<noteq> DESTROYED_SUBPICTURE)) \<and>
     (\<forall>x. f' = Some x \<longrightarrow> f = Some x \<or> (i \<le> x \<and> x < length pool \<and> i_status (pool ! x) = FREE_SUBPICTURE)) \<and>
     (\<forall>x. d' = Some x \<longrightarrow> d = Some x \<or> (i \<le> x \<and> x < length pool \<and> i_status (pool ! x) = DESTROYED_SUBPICTURE))"
proof (induction pool ty sz i f d rule: create_loop.induct)
  case (1 pool ty sz i f d)
  show ?case
  proof (cases "i < length pool")
    case False
    then show ?thesis by (subst create_loop.simps) auto
  next
    case True
    have nr: "\<not> reusable ty sz (pool ! i)" using "1.prems" True by simp
    have later: "\<forall>j. Suc i \<le> j \<and> j < length pool \<longrightarrow> \<not> reusable ty sz (pool ! j)"
      using "1.prems" by simp
    note ih = "1.IH"(1)[OF True _ _ _ later] "1.IH"(2)[OF True _ _ _ later]
              "1.IH"(3)[OF True _ _ later] "1.IH"(4)[OF True _ _ later]
    have nr': "\<not> (i_type (pool ! i) = ty \<and> sz \<le> i_size (pool ! i))"
      if "i_status (pool ! i) = DESTROYED_SUBPICTURE"
      using nr that by (simp add: reusable_def)
    consider (a) "i_status (pool ! i) = DESTROYED_SUBPICTURE" "d = None"
      | (b) "i_status (pool ! i) = DESTROYED_SUBPICTURE" "d \<noteq> None"
      | (c) "i_status (pool ! i) \<noteq> DESTROYED_SUBPICTURE"
            "f = None \<and> i_status (pool ! i) = FREE_SUBPICTURE"
      | (d) "i_status (pool ! i) \<noteq> DESTROYED_SUBPICTURE"
            "\<not> (f = None \<and> i_status (pool ! i) = FREE_SUBPICTURE)"
      by blast
    then show ?thesis
    proof cases
      case a
      show ?thesis
        using ih(1)[OF a(1) nr'[OF a(1)] a(2)] True a nr'[OF a(1)]
        by (subst create_loop.simps, subst all_from_split[of i], subst all_from_split[of i]) auto
    next
      case b
      show ?thesis
        using ih(2)[OF b(1) nr'[OF b(1)] b(2)] True b nr'[OF b(1)]
        by (subst create_loop.simps, subst all_from_split[of i], subst all_from_split[of i]) auto
    next
      case c
      show ?thesis
        using ih(3)[OF c] True c
        by (subst create_loop.simps, subst all_from_split[of i], subst all_from_split[of i]) auto
    next
      case d
      show ?thesis
        using ih(4)[OF d] True d
        by (subst create_loop.simps, subst all_from_split[of i], subst all_from_split[of i]) auto
    qed
  qed
qed

lemma first_exists:
  fixes P :: "nat \<Rightarrow> bool"
  assumes "\<exists>k<n. P k"
  shows "\<exists>k<n. P k \<and> (\<forall>j<k. \<not> P j)"
proof -
  from assms obtain k where k: "k < n" "P k" by blast
  define m where "m = (LEAST k. P k)"
  have pm: "P m" unfolding m_def using k(2) by (rule LeastI)
  have "m \<le> k" unfolding m_def using k(2) by (rule Least_le)
  with k(1) have mn: "m < n" by simp
  have least: "\<not> P j" if "j < m" for j
    using that unfolding m_def by (rule not_less_Least)
  show ?thesis
  proof (intro exI conjI allI impI)
    show "m < n" by (rule mn)
    show "P m" by (rule pm)
    show "\<not> P j" if "j < m" for j using that by (rule least)
  qed
qed

lemma create_fast_path:
  assumes "k < length (p_subpicture st)" "reusable ty sz (p_subpicture st ! k)"
    "\<forall>j<k. \<not> reusable ty sz (p_subpicture st ! j)"
  shows "vout_CreateSubPicture alloc ty sz st =
           (Inr k, st\<lparr>p_subpicture :=
               (p_subpicture st)[k := (p_subpicture st ! k)\<lparr>i_status := RESERVED_SUBPICTURE\<rparr>]\<rparr>)"
proof -
  have "create_loop (p_subpicture st) ty sz 0 None None = Reuse k"
    by (rule create_loop_reuse) (use assms in auto)
  then show ?thesis
    by (simp add: vout_CreateSubPicture_def Let_def)
qed

lemma prepare_pool:
  "prepare_subpicture alloc ty sz st = (p, st') \<Longrightarrow> p_subpicture st' = p_subpicture st"
  by (auto simp: prepare_subpicture_def libc_memalign_def intf_ErrMsg_def
           split: subpicture_type.splits option.splits)

lemma libc_free_pool: "p_subpicture (libc_free p st) = p_subpicture st"
  by (simp add: libc_free_def split: option.splits)

lemma status_notin_set:
  "(\<forall>j < length pool. i_status (pool ! j) \<noteq> v) \<longleftrightarrow> v \<notin> set (map i_status pool)"
proof
  assume a: "\<forall>j < length pool. i_status (pool ! j) \<noteq> v"
  show "v \<notin> set (map i_status pool)"
  proof
    assume "v \<in> set (map i_status pool)"
    then obtain j where "j < length pool" "i_status (pool ! j) = v"
      by (auto simp: in_set_conv_nth)
    with a show False by blast
  qed
next
  assume a: "v \<notin> set (map i_status pool)"
  show "\<forall>j < length pool. i_status (pool ! j) \<noteq> v"
  proof (intro allI impI)
    fix j assume "j < length pool"
    then have "i_status (pool ! j) \<in> set (map i_status pool)" by simp
    with a show "i_status (pool ! j) \<noteq> v" by blast
  qed
qed

text \<open>What the scan gives when no slot can be taken as it is.\<close>

lemma create_slow_path:
  assumes "\<forall>j < length (p_subpicture st). \<not> reusable ty sz (p_subpicture st ! j)"
  shows "\<exists>f' d'. create_loop (p_subpicture st) ty sz 0 None None = Scanned f' d' \<and>
     (f' = None \<longleftrightarrow> FREE_SUBPICTURE \<notin> set (map i_status (p_subpicture st))) \<and>
     (d' = None \<longleftrightarrow> DESTROYED_SUBPICTURE \<notin> set (map i_status (p_subpicture st))) \<and>
     (\<forall>x. f' = Some x \<longrightarrow> x < length (p_subpicture st)) \<and>
     (\<forall>x. d' = Some x \<longrightarrow> x < length (p_subpicture st))"
proof -
  from assms have "\<forall>j. 0 \<le> j \<and> j < length (p_subpicture st) \<longrightarrow> \<not> reusable ty sz (p_subpicture st ! j)"
    by simp
  from create_loop_scanned[OF this, of None None] obtain f' d' where
    sc: "create_loop (p_subpicture st) ty sz 0 None None = Scanned f' d'"
    and f: "f' = None \<longleftrightarrow> (\<forall>j < length (p_subpicture st). i_status (p_subpicture st ! j) \<noteq> FREE_SUBPICTURE)"
    and d: "d' = None \<longleftrightarrow> (\<forall>j < length (p_subpicture st). i_status (p_subpicture st ! j) \<noteq> DESTROYED_SUBPICTURE)"
    and fx: "\<forall>x. f' = Some x \<longrightarrow> x < length (p_subpicture st)"
    and dx: "\<forall>x. d' = Some x \<longrightarrow> x < length (p_subpicture st)"
    by auto
  show ?thesis
    using sc f d fx dx unfolding status_notin_set by blast
qed

lemma vout0_fields [simp]:
  "p_subpicture (vout0 pool) = pool" "heap (vout0 pool) = Map.empty" "intf_msgs (vout0 pool) = []"
  "output_i_width (vout0 pool) = 720" "output_i_height (vout0 pool) = 480"
  "render_i_width (vout0 pool) = 720" "render_i_height (vout0 pool) = 480"
  by (simp_all add: vout0_def)

lemma create_slow_result:
  assumes sc: "create_loop (p_subpicture st) ty sz 0 None None = Scanned f' d'"
    and r: "vout_CreateSubPicture alloc ty sz st = (Inr f, st')"
  shows "(f' = Some f \<or> (f' = None \<and> d' = Some f)) \<and>
         length (p_subpicture st') = length (p_subpicture st) \<and>
         (\<forall>j. j \<noteq> f \<longrightarrow> p_subpicture st' ! j = p_subpicture st ! j) \<and>
         (f < length (p_subpicture st) \<longrightarrow>
            p_data (p_subpicture st' ! f) \<noteq> None \<and>
            p_subpicture st' ! f =
              (p_subpicture st ! f)\<lparr>p_data := p_data (p_subpicture st' ! f), i_type := ty,
                 i_status := RESERVED_SUBPICTURE, i_size := sz, i_x := 0, i_y := 0,
                 i_width := 0, i_height := 0\<rparr>)"
proof -
  define st1 where "st1 = (case (f', d') of (None, Some d) \<Rightarrow> libc_free (p_data (p_subpicture st ! d)) st | _ \<Rightarrow> st)"
  define g where "g = (case (f', d') of (None, Some d) \<Rightarrow> Some d | _ \<Rightarrow> f')"
  have pool1: "p_subpicture st1 = p_subpicture st"
    by (simp add: st1_def libc_free_pool split: option.splits)
  obtain p st2 where prep: "prepare_subpicture alloc ty sz st1 = (p, st2)"
    by (cases "prepare_subpicture alloc ty sz st1")
  have pool2: "p_subpicture st2 = p_subpicture st"
    using prepare_pool[OF prep] pool1 by simp
  have eq: "vout_CreateSubPicture alloc ty sz st =
     (case g of None \<Rightarrow> (Inl PoolFull, intf_ErrMsg Heap_is_full st1)
      | Some x \<Rightarrow>
         if p \<noteq> None
         then (Inr x, st2\<lparr>p_subpicture := (p_subpicture st2)
                  [x := (p_subpicture st2 ! x)\<lparr>p_data := p, i_type := ty, i_status := RESERVED_SUBPICTURE,
                        i_size := sz, i_x := 0, i_y := 0, i_width := 0, i_height := 0\<rparr>]\<rparr>)
         else (Inl AllocationFailed,
                 intf_ErrMsg Allocation_returned_ENOMEM
                   (st2\<lparr>p_subpicture := (p_subpicture st2)
                       [x := (p_subpicture st2 ! x)\<lparr>p_data := p, i_type := EMPTY_SUBPICTURE,
                            i_status := FREE_SUBPICTURE\<rparr>]\<rparr>)))"
    using prep unfolding st1_def g_def
    by (cases f'; cases d') (simp_all add: vout_CreateSubPicture_def sc Let_def)
  from r eq have gf: "g = Some f" and pn: "p \<noteq> None"
    and st': "st' = st2\<lparr>p_subpicture := (p_subpicture st2)
                  [f := (p_subpicture st2 ! f)\<lparr>p_data := p, i_type := ty, i_status := RESERVED_SUBPICTURE,
                        i_size := sz, i_x := 0, i_y := 0, i_width := 0, i_height := 0\<rparr>]\<rparr>"
    by (auto split: option.splits if_splits)
  have 1: "f' = Some f \<or> (f' = None \<and> d' = Some f)"
    using gf by (auto simp: g_def split: option.splits)
  have 2: "length (p_subpicture st') = length (p_subpicture st)"
    by (simp add: st' pool2)
  have 3: "\<forall>j. j \<noteq> f \<longrightarrow> p_subpicture st' ! j = p_subpicture st ! j"
    by (simp add: st' pool2)
  have 4: "f < length (p_subpicture st) \<longrightarrow>
            p_data (p_subpicture st' ! f) \<noteq> None \<and>
            p_subpicture st' ! f =
              (p_subpicture st ! f)\<lparr>p_data := p_data (p_subpicture st' ! f), i_type := ty,
                 i_status := RESERVED_SUBPICTURE, i_size := sz, i_x := 0, i_y := 0,
                 i_width := 0, i_height := 0\<rparr>"
    using pn by (simp add: st' pool2)
  from 1 2 3 4 show ?thesis by blast
qed

subsection \<open>Claims about the pool\<close>

text \<open>
  C4. When some slot is destroyed, of the requested type and at least of the requested
  size, the call returns the first such slot of the scan, and all it does to the state is
  to set the status of that slot to reserved: the heap is the same (nothing is
  allocated, nothing is freed) and the slot keeps its \<open>p_data\<close>.
\<close>

theorem create_reuses_first_destroyed:
  assumes "\<exists>k < length (p_subpicture st). reusable ty sz (p_subpicture st ! k)"
  shows "\<exists>k < length (p_subpicture st).
           reusable ty sz (p_subpicture st ! k) \<and>
           (\<forall>j<k. \<not> reusable ty sz (p_subpicture st ! j)) \<and>
           vout_CreateSubPicture alloc ty sz st =
             (Inr k, st\<lparr>p_subpicture :=
                 (p_subpicture st)[k := (p_subpicture st ! k)\<lparr>i_status := RESERVED_SUBPICTURE\<rparr>]\<rparr>) \<and>
           heap (snd (vout_CreateSubPicture alloc ty sz st)) = heap st \<and>
           p_data (p_subpicture (snd (vout_CreateSubPicture alloc ty sz st)) ! k)
             = p_data (p_subpicture st ! k)"
proof -
  from first_exists[OF assms] obtain k where k: "k < length (p_subpicture st)"
    "reusable ty sz (p_subpicture st ! k)" "\<forall>j<k. \<not> reusable ty sz (p_subpicture st ! j)"
    by blast
  note eq = create_fast_path[OF k, of alloc]
  have "heap (snd (vout_CreateSubPicture alloc ty sz st)) = heap st"
    by (simp add: eq)
  moreover have "p_data (p_subpicture (snd (vout_CreateSubPicture alloc ty sz st)) ! k)
             = p_data (p_subpicture st ! k)"
    using k(1) by (simp add: eq)
  ultimately show ?thesis using k eq by blast
qed

theorem create_reuses_first_destroyed_witness:
  "(\<exists>k < length (p_subpicture (vout0 pool_reuse)).
      reusable DVD_SUBPICTURE 50 (p_subpicture (vout0 pool_reuse) ! k))
   \<and> vout_CreateSubPicture no_memory DVD_SUBPICTURE 50 (vout0 pool_reuse)
      = (Inr 1, vout0 (pool_reuse[1 := (pool_reuse ! 1)\<lparr>i_status := RESERVED_SUBPICTURE\<rparr>]))"
  (is "?H \<and> ?C")
proof -
  have h: ?H
    by (rule exI[of _ 1]) (simp add: vout0_def pool_reuse_def slot0_def reusable_def)
  from create_reuses_first_destroyed[OF h, of no_memory] obtain k where
    k: "reusable DVD_SUBPICTURE 50 (pool_reuse ! k)"
       "\<forall>j<k. \<not> reusable DVD_SUBPICTURE 50 (pool_reuse ! j)" "k < 3"
    and eq: "vout_CreateSubPicture no_memory DVD_SUBPICTURE 50 (vout0 pool_reuse)
      = (Inr k, vout0 (pool_reuse[k := (pool_reuse ! k)\<lparr>i_status := RESERVED_SUBPICTURE\<rparr>]))"
    by (auto simp: vout0_def pool_reuse_def)
  from k(3) consider "k = 0" | "k = 1" | "k = 2" by linarith
  then have "k = 1"
  proof cases
    case 1 with k(1) show ?thesis by (simp add: pool_reuse_def slot0_def reusable_def)
  next
    case 2 then show ?thesis .
  next
    case 3 with k(2) show ?thesis
      by (auto simp: pool_reuse_def slot0_def reusable_def dest: spec[of _ 1])
  qed
  with eq have ?C by simp
  with h show ?thesis ..
qed

text \<open>
  C5. The call fails with \<open>PoolFull\<close> exactly when no slot of the array is free and
  none is destroyed; it has then sent \<^verbatim>\<open>subpicture heap is full\<close> and changed nothing
  else.
\<close>

theorem create_pool_full_iff:
  "(fst (vout_CreateSubPicture alloc ty sz st) = Inl PoolFull \<longleftrightarrow>
      FREE_SUBPICTURE \<notin> set (map i_status (p_subpicture st)) \<and>
      DESTROYED_SUBPICTURE \<notin> set (map i_status (p_subpicture st)))
   \<and> (vout_CreateSubPicture alloc ty sz st = (Inl PoolFull, intf_ErrMsg Heap_is_full st) \<longleftrightarrow>
      FREE_SUBPICTURE \<notin> set (map i_status (p_subpicture st)) \<and>
      DESTROYED_SUBPICTURE \<notin> set (map i_status (p_subpicture st)))"
proof (cases "\<exists>k < length (p_subpicture st). reusable ty sz (p_subpicture st ! k)")
  case True
  from first_exists[OF True] obtain k where k: "k < length (p_subpicture st)"
    "reusable ty sz (p_subpicture st ! k)" "\<forall>j<k. \<not> reusable ty sz (p_subpicture st ! j)"
    by blast
  from k(1,2) have "DESTROYED_SUBPICTURE \<in> set (map i_status (p_subpicture st))"
    by (force simp: reusable_def in_set_conv_nth)
  then show ?thesis
    by (simp add: create_fast_path[OF k])
next
  case False
  then have "\<forall>j < length (p_subpicture st). \<not> reusable ty sz (p_subpicture st ! j)"
    by simp
  from create_slow_path[OF this] obtain f' d' where
    sc: "create_loop (p_subpicture st) ty sz 0 None None = Scanned f' d'"
    and f: "f' = None \<longleftrightarrow> FREE_SUBPICTURE \<notin> set (map i_status (p_subpicture st))"
    and d: "d' = None \<longleftrightarrow> DESTROYED_SUBPICTURE \<notin> set (map i_status (p_subpicture st))"
    by blast
  have 1: "fst (vout_CreateSubPicture alloc ty sz st) = Inl PoolFull \<longleftrightarrow> f' = None \<and> d' = None"
    by (auto simp: vout_CreateSubPicture_def sc Let_def split: option.splits prod.splits)
  have 2: "vout_CreateSubPicture alloc ty sz st = (Inl PoolFull, intf_ErrMsg Heap_is_full st)
           \<longleftrightarrow> f' = None \<and> d' = None"
    by (auto simp: vout_CreateSubPicture_def sc Let_def split: option.splits prod.splits)
  show ?thesis unfolding 1 2 f d by simp
qed

theorem create_pool_full_iff_witness:
  "map i_status pool_full = [RESERVED_SUBPICTURE, READY_SUBPICTURE]
   \<and> vout_CreateSubPicture block1 DVD_SUBPICTURE 50 (vout0 pool_full)
       = (Inl PoolFull, (vout0 pool_full)\<lparr>intf_msgs := [Heap_is_full]\<rparr>)
   \<and> map i_status pool_free = [READY_SUBPICTURE, FREE_SUBPICTURE]
   \<and> fst (vout_CreateSubPicture block1 DVD_SUBPICTURE 50 (vout0 pool_free)) \<noteq> Inl PoolFull"
  using create_pool_full_iff[of block1 DVD_SUBPICTURE 50 "vout0 pool_full"]
        create_pool_full_iff[of block1 DVD_SUBPICTURE 50 "vout0 pool_free"]
  by (simp add: vout0_def pool_full_def pool_free_def slot0_def intf_ErrMsg_def)

text \<open>
  C10. A call that succeeds returns a slot of the array. On the fast path (some slot is
  destroyed, of the requested type and large enough) the state changes in the status of
  that slot only: its position, its sizes, its recorded \<open>i_size\<close> (which may be larger
  than the requested one), its type, its \<open>p_data\<close> and the heap are what they were.
  On the other path the slot has its position and sizes at 0, the requested type and the
  requested \<open>i_size\<close>.
\<close>

theorem create_changes:
  assumes "vout_CreateSubPicture alloc ty sz st = (Inr f, st')"
  shows "f < length (p_subpicture st) \<and>
     (if \<exists>k < length (p_subpicture st). reusable ty sz (p_subpicture st ! k)
      then st' = st\<lparr>p_subpicture :=
                     (p_subpicture st)[f := (p_subpicture st ! f)\<lparr>i_status := RESERVED_SUBPICTURE\<rparr>]\<rparr>
           \<and> heap st' = heap st
           \<and> i_status (p_subpicture st' ! f) = RESERVED_SUBPICTURE
           \<and> i_x (p_subpicture st' ! f) = i_x (p_subpicture st ! f)
           \<and> i_y (p_subpicture st' ! f) = i_y (p_subpicture st ! f)
           \<and> i_width (p_subpicture st' ! f) = i_width (p_subpicture st ! f)
           \<and> i_height (p_subpicture st' ! f) = i_height (p_subpicture st ! f)
           \<and> i_size (p_subpicture st' ! f) = i_size (p_subpicture st ! f)
           \<and> sz \<le> i_size (p_subpicture st' ! f)
           \<and> i_type (p_subpicture st' ! f) = i_type (p_subpicture st ! f)
           \<and> p_data (p_subpicture st' ! f) = p_data (p_subpicture st ! f)
      else i_status (p_subpicture st' ! f) = RESERVED_SUBPICTURE
           \<and> i_x (p_subpicture st' ! f) = 0
           \<and> i_y (p_subpicture st' ! f) = 0
           \<and> i_width (p_subpicture st' ! f) = 0
           \<and> i_height (p_subpicture st' ! f) = 0
           \<and> i_size (p_subpicture st' ! f) = sz
           \<and> i_type (p_subpicture st' ! f) = ty
           \<and> p_data (p_subpicture st' ! f) \<noteq> None)"
proof (cases "\<exists>k < length (p_subpicture st). reusable ty sz (p_subpicture st ! k)")
  case True
  from first_exists[OF True] obtain k where k: "k < length (p_subpicture st)"
    "reusable ty sz (p_subpicture st ! k)" "\<forall>j<k. \<not> reusable ty sz (p_subpicture st ! j)"
    by blast
  from create_fast_path[OF k, of alloc] assms
  have fk: "f = k" and st': "st' = st\<lparr>p_subpicture :=
      (p_subpicture st)[k := (p_subpicture st ! k)\<lparr>i_status := RESERVED_SUBPICTURE\<rparr>]\<rparr>"
    by simp_all
  from k(2) have "sz \<le> i_size (p_subpicture st ! k)" by (simp add: reusable_def)
  with True k(1) show ?thesis by (simp add: fk st')
next
  case False
  then have "\<forall>j < length (p_subpicture st). \<not> reusable ty sz (p_subpicture st ! j)"
    by simp
  from create_slow_path[OF this] obtain f' d' where
    sc: "create_loop (p_subpicture st) ty sz 0 None None = Scanned f' d'"
    and fx: "\<forall>x. f' = Some x \<longrightarrow> x < length (p_subpicture st)"
    and dx: "\<forall>x. d' = Some x \<longrightarrow> x < length (p_subpicture st)"
    by blast
  note res = create_slow_result[OF sc assms]
  from res fx dx have lt: "f < length (p_subpicture st)" by blast
  with res have nn: "p_data (p_subpicture st' ! f) \<noteq> None"
    and eq: "p_subpicture st' ! f =
              (p_subpicture st ! f)\<lparr>p_data := p_data (p_subpicture st' ! f), i_type := ty,
                 i_status := RESERVED_SUBPICTURE, i_size := sz, i_x := 0, i_y := 0,
                 i_width := 0, i_height := 0\<rparr>"
    by blast+
  have "i_status (p_subpicture st' ! f) = RESERVED_SUBPICTURE"
       "i_x (p_subpicture st' ! f) = 0" "i_y (p_subpicture st' ! f) = 0"
       "i_width (p_subpicture st' ! f) = 0" "i_height (p_subpicture st' ! f) = 0"
       "i_size (p_subpicture st' ! f) = sz" "i_type (p_subpicture st' ! f) = ty"
    by (subst eq, simp)+
  with lt nn show ?thesis unfolding if_not_P[OF False] by simp
qed

lemma create_pool_reuse:
  "vout_CreateSubPicture no_memory DVD_SUBPICTURE 50 (vout0 pool_reuse)
     = (Inr 1, vout0 (pool_reuse[1 := (pool_reuse ! 1)\<lparr>i_status := RESERVED_SUBPICTURE\<rparr>]))"
  by (simp add: vout_CreateSubPicture_def create_loop.simps vout0_def pool_reuse_def slot0_def Let_def)

lemma create_pool_free:
  "vout_CreateSubPicture block1 DVD_SUBPICTURE 50 (vout0 pool_free)
     = (Inr 1, (vout0 (pool_free[1 := slot0\<lparr>p_data := Some 1, i_type := DVD_SUBPICTURE,
                  i_status := RESERVED_SUBPICTURE, i_size := 50\<rparr>]))\<lparr>heap := [1 \<mapsto> []]\<rparr>)"
  by (simp add: vout_CreateSubPicture_def create_loop.simps vout0_def pool_free_def slot0_def Let_def
        prepare_subpicture_def libc_memalign_def block1_def)

theorem create_changes_witness:
  "vout_CreateSubPicture no_memory DVD_SUBPICTURE 50 (vout0 pool_reuse)
     = (Inr 1, vout0 (pool_reuse[1 := (pool_reuse ! 1)\<lparr>i_status := RESERVED_SUBPICTURE\<rparr>]))
   \<and> i_x (pool_reuse ! 1) = 3 \<and> i_size (pool_reuse ! 1) = 100
   \<and> i_x (p_subpicture (snd (vout_CreateSubPicture no_memory DVD_SUBPICTURE 50 (vout0 pool_reuse))) ! 1) = 3
   \<and> i_size (p_subpicture (snd (vout_CreateSubPicture no_memory DVD_SUBPICTURE 50 (vout0 pool_reuse))) ! 1) = 100
   \<and> fst (vout_CreateSubPicture block1 DVD_SUBPICTURE 50 (vout0 pool_free)) = Inr 1
   \<and> i_x (pool_free ! 1) = 3
   \<and> i_x (p_subpicture (snd (vout_CreateSubPicture block1 DVD_SUBPICTURE 50 (vout0 pool_free))) ! 1) = 0
   \<and> i_size (p_subpicture (snd (vout_CreateSubPicture block1 DVD_SUBPICTURE 50 (vout0 pool_free))) ! 1) = 50"
proof -
  have r: "\<exists>k < length (p_subpicture (vout0 pool_reuse)).
             reusable DVD_SUBPICTURE 50 (p_subpicture (vout0 pool_reuse) ! k)"
    by (rule exI[of _ 1]) (simp add: vout0_def pool_reuse_def slot0_def reusable_def)
  have nr: "\<not> (\<exists>k < length (p_subpicture (vout0 pool_free)).
             reusable DVD_SUBPICTURE 50 (p_subpicture (vout0 pool_free) ! k))"
    unfolding list_ex_length[symmetric]
    by (simp add: vout0_def pool_free_def slot0_def reusable_def)
  have v: "i_x (pool_reuse ! 1) = 3" "i_size (pool_reuse ! 1) = 100" "i_x (pool_free ! 1) = 3"
    by (simp_all add: pool_reuse_def pool_free_def slot0_def)
  note fast = create_changes[OF create_pool_reuse, unfolded if_P[OF r]]
  note slow = create_changes[OF create_pool_free, unfolded if_not_P[OF nr]]
  have len: "Suc 0 < length pool_reuse" "Suc 0 < length pool_free"
    by (simp_all add: pool_reuse_def pool_free_def)
  show ?thesis
    using fast slow v
    by (simp add: create_pool_reuse create_pool_free len)
qed

subsection \<open>The arithmetic of int\<close>

lemma c_int_id: "is_int x \<Longrightarrow> c_int x = x"
  by (simp add: c_int_def is_int_def signed_take_bit_int_eq_self)

lemma is_int_c_int: "is_int (c_int x)"
  using signed_take_bit_int_greater_eq_minus_exp[of 31 x] signed_take_bit_int_less_exp[of 31 x]
  by (simp add: c_int_def is_int_def)


lemma is_int_fewer_rows:
  assumes "is_int (int (Suc r) * W)"
  shows "is_int (int r * W)"
proof (cases "0 \<le> W")
  case True
  then have "0 \<le> int r * W" by simp
  moreover have "int r * W \<le> int (Suc r) * W" using True by (simp add: algebra_simps)
  ultimately show ?thesis using assms by (simp add: is_int_def)
next
  case False
  then have "int r * W \<le> 0" by (simp add: mult_nonneg_nonpos)
  moreover have "int (Suc r) * W \<le> int r * W" using False by (simp add: algebra_simps)
  ultimately show ?thesis using assms by (simp add: is_int_def)
qed

lemma drop_bit_6_range:
  assumes "0 \<le> (y :: int)" and "y < 2 ^ 31"
  shows "0 \<le> drop_bit 6 y" and "drop_bit 6 y + 1 < 2 ^ 31"
proof -
  show "0 \<le> drop_bit 6 y" using assms(1) by (simp only: drop_bit_nonnegative_int_iff)
  have "y div 64 + 1 < 2147483648" using assms by simp
  then show "drop_bit 6 y + 1 < 2 ^ 31" by (simp add: drop_bit_eq_div)
qed

subsection \<open>Claims about the status changes\<close>




text \<open>
  C9. A status that the call does not expect costs a message and nothing else. After
  \<^verbatim>\<open>vout_DisplaySubPicture\<close> the slot is ready and after \<^verbatim>\<open>vout_DestroySubPicture\<close> it
  is destroyed, whatever its status was; the state they give is the one they give for an
  expected status, with one message more when the status was not expected.
\<close>

theorem invalid_status_is_only_reported:
  assumes "p < length (p_subpicture st)"
  shows "i_status (p_subpicture (vout_DisplaySubPicture m p st) ! p) = READY_SUBPICTURE
     \<and> vout_DisplaySubPicture m p st =
         st\<lparr>p_subpicture := (p_subpicture st)
               [p := (p_subpicture st ! p)
                  \<lparr>i_y := (if 0 \<le> m
                              \<and> c_int (i_height (p_subpicture st ! p) + m) \<le> output_i_height st
                            then c_int (c_int (output_i_height st - m)
                                        - i_height (p_subpicture st ! p))
                            else i_y (p_subpicture st ! p)),
                   i_status := READY_SUBPICTURE\<rparr>],
            intf_msgs := intf_msgs st @
               (if i_status (p_subpicture st ! p) = RESERVED_SUBPICTURE then []
                else [Invalid_status p (i_status (p_subpicture st ! p))])\<rparr>
     \<and> i_status (p_subpicture (vout_DestroySubPicture p st) ! p) = DESTROYED_SUBPICTURE
     \<and> vout_DestroySubPicture p st =
         st\<lparr>p_subpicture := (p_subpicture st)
               [p := (p_subpicture st ! p)\<lparr>i_status := DESTROYED_SUBPICTURE\<rparr>],
            intf_msgs := intf_msgs st @
               (if i_status (p_subpicture st ! p) = RESERVED_SUBPICTURE
                   \<or> i_status (p_subpicture st ! p) = READY_SUBPICTURE then []
                else [Invalid_status p (i_status (p_subpicture st ! p))])\<rparr>"
  using assms
  by (simp add: vout_DisplaySubPicture_def vout_DestroySubPicture_def Let_def intf_ErrMsg_def)

theorem invalid_status_is_only_reported_witness:
  "0 < length (p_subpicture (vout0 [slot0]))
   \<and> i_status (p_subpicture (vout0 [slot0]) ! 0) = FREE_SUBPICTURE
   \<and> vout_DisplaySubPicture 20 0 (vout0 [slot0]) =
       (vout0 [slot0\<lparr>i_y := 460, i_status := READY_SUBPICTURE\<rparr>])
         \<lparr>intf_msgs := [Invalid_status 0 FREE_SUBPICTURE]\<rparr>
   \<and> vout_DestroySubPicture 0 (vout0 [slot0]) =
       (vout0 [slot0\<lparr>i_status := DESTROYED_SUBPICTURE\<rparr>])
         \<lparr>intf_msgs := [Invalid_status 0 FREE_SUBPICTURE]\<rparr>"
proof -
  have h: "0 < length (p_subpicture (vout0 [slot0]))"
    by (simp add: vout0_def)
  have c: "c_int 20 = 20" "c_int 460 = 460"
    by (simp_all add: c_int_id is_int_def)
  show ?thesis
    using invalid_status_is_only_reported[OF h, of 20] h c
    by (simp add: vout0_def slot0_def)
qed

subsection \<open>The units of the source\<close>

lemma and_3_take_bit: "(w :: u16) AND 3 = take_bit 2 w"
proof -
  have "(3 :: u16) = mask 2" by (simp add: mask_eq_exp_minus_1)
  then show ?thesis by (simp add: take_bit_eq_mask)
qed

lemma rle_color_mod: "rle_color w = unat w mod 4"
  by (simp add: rle_color_def and_3_take_bit take_bit_eq_mod unat_mod)

lemma rle_len_div: "rle_len w = uint w div 4"
  by (simp add: rle_len_def drop_bit_eq_div uint_div)

lemma rle_len_bounds: "0 \<le> rle_len w" "rle_len w < 16384"
proof -
  show "0 \<le> rle_len w" by (simp add: rle_len_def)
  have "uint w < 65536" using uint_lt2p[of w] by simp
  then show "rle_len w < 16384" by (simp add: rle_len_div)
qed

lemma rle_split: "uint w = 4 * rle_len w + int (rle_color w)"
  by (simp add: rle_len_div rle_color_mod zmod_int flip: uint_nat)

lemma rle_color_cases:
  obtains "rle_color w = 0" | "rle_color w = 1" | "rle_color w = 2" | "rle_color w = 3"
proof -
  have "rle_color w < 4" by (simp add: rle_color_mod)
  then show ?thesis using that by linarith
qed

lemma p_trsp_values:
  "p_trsp 0 = 0x00" "p_trsp (Suc 0) = 0xff" "p_trsp 2 = 0xff" "p_trsp 3 = 0xff"
  by (simp_all add: p_trsp_def numeral_2_eq_2 numeral_3_eq_3)

text \<open>\<^verbatim>\<open>memset\<close> takes the low byte of the 16-bit colour.\<close>

lemma p_clut16_low_byte: "(ucast (p_clut16 1) :: u8) = 0x44"
  by (simp add: p_clut16_def word_eq_iff_unsigned[where ?'a = nat] unsigned_numeral
        take_bit_eq_mod)

lemma unit_class_color: "unit_class w = rle_color w"
  by (simp add: unit_class_def rle_color_mod)

lemma unit_run_len: "unit_run w = rle_len w"
  by (simp add: unit_run_def rle_len_div)

lemma i420_run_eq:
  "i420_run p_dest iy w ix pix =
     (c_int (ix - rle_len w),
      if rle_color w = 0 then pix
      else memset (p_dest - ix - iy) (p_clut8 (rle_color w)) (rle_len w) pix)"
  by (cases w rule: rle_color_cases) (simp_all add: i420_run_def Let_def p_trsp_values)

lemma rv16_run_eq:
  "rv16_run p_dest i_xscale i_yreal w ix pix =
     (c_int (ix - c_int (i_xscale * rle_len w)),
      if rle_color w = 0 then pix
      else memset (p_dest - c_int (2 * drop_bit 6 ix) + i_yreal) (ucast (p_clut16 (rle_color w)))
             (c_int (2 * c_int (drop_bit 6 (c_int (i_xscale * rle_len w)) + 1))) pix)"
  by (cases w rule: rle_color_cases) (simp_all add: rv16_run_def Let_def p_trsp_values)

lemma rv16_run_lines_eq:
  "rv16_run_lines out_width p_dest i_xscale i_yreal i_ynext w ix pix =
     (if rle_color w = 0 then Some (c_int (ix - c_int (i_xscale * rle_len w)), pix)
      else map_option (Pair (c_int (ix - c_int (i_xscale * rle_len w))))
             (rv16_fill out_width i_ynext (p_dest - c_int (2 * drop_bit 6 ix))
                (ucast (p_clut16 (rle_color w)))
                (c_int (2 * c_int (drop_bit 6 (c_int (i_xscale * rle_len w)) + 1))) i_yreal pix))"
  by (cases w rule: rle_color_cases) (simp_all add: rv16_run_lines_def Let_def p_trsp_values)

subsection \<open>The loops over the units of a line\<close>

lemma i420_line_units:
  "i420_line p_dest iy ws ix pix = draw_units unscaled (paint_i420 p_dest iy) ws ix pix"
  by (induction ws arbitrary: ix pix)
     (simp_all add: i420_run_eq unit_class_color unit_run_len unscaled_def paint_i420_def)

lemma rv16_line_units:
  "rv16_line p_dest i_xscale i_yreal ws ix pix =
     draw_units (scaled i_xscale) (paint_rv16 p_dest i_yreal) ws ix pix"
  by (induction ws arbitrary: ix pix)
     (simp_all add: rv16_run_eq unit_class_color unit_run_len scaled_def paint_rv16_def)

lemma rv16_line_lines_units:
  "rv16_line_lines out_width p_dest i_xscale i_yreal i_ynext ws ix pix =
     draw_units (scaled i_xscale) (paint_rv16_lines out_width p_dest i_yreal i_ynext) ws ix pix"
  by (induction ws arbitrary: ix pix)
     (simp_all add: rv16_run_lines_eq unit_class_color unit_run_len scaled_def
        paint_rv16_lines_def split: option.splits)

subsection \<open>The loops over the lines\<close>

lemma i420_lines_rows:
  assumes "W \<noteq> 0" and "is_int (int r * W)"
  shows "i420_lines W p_dest width (int r * W) sp = unscaled_rows W p_dest width r sp"
  using assms(2)
proof (induction r arbitrary: sp)
  case 0
  show ?case by (subst i420_lines.simps) simp
next
  case (Suc r)
  from Suc.prems have r: "is_int (int r * W)" by (rule is_int_fewer_rows)
  have "int (Suc r) * W - W = int r * W" by (simp add: algebra_simps)
  with r have step: "c_int (int (Suc r) * W - W) = int r * W" by (simp add: c_int_id)
  have ne: "int (Suc r) * W \<noteq> 0" using assms(1) by simp
  have ih: "(\<lambda>sp'. i420_lines W p_dest width (int r * W) sp') = unscaled_rows W p_dest width r"
    using Suc.IH[OF r] by (intro ext)
  show ?case
    by (subst i420_lines.simps) (simp only: ne if_False step ih i420_line_units unscaled_rows.simps)
qed

lemma rv16_lines_rows:
  assumes "0 < ys" and "0 \<le> y" and "y + int r * ys < 2 ^ 31"
  shows "rv16_lines W p_dest xs ys width (y + int r * ys) y sp =
           scaled_rows W p_dest xs ys width r y sp"
  using assms(2,3)
proof (induction r arbitrary: y sp)
  case 0
  show ?case by (subst rv16_lines.simps) simp
next
  case (Suc r)
  have "0 \<le> int r * ys" using assms(1) by simp
  then have le: "y + ys \<le> y + int (Suc r) * ys"
    by (simp add: algebra_simps)
  have lt: "y < y + int (Suc r) * ys"
    using assms(1) le by linarith
  from le Suc.prems(2) have "y + ys < 2 ^ 31" by linarith
  moreover from Suc.prems(1) assms(1) have "- (2 ^ 31) \<le> y + ys" by simp
  ultimately have "is_int (y + ys)" by (simp only: is_int_def simp_thms)
  then have next_y: "c_int (y + ys) = y + ys" by (rule c_int_id)
  from Suc.prems lt have "y < 2 ^ 31" by linarith
  with Suc.prems(1) have "is_int (drop_bit 6 y + 1)"
    using drop_bit_6_range[of y] by (simp add: is_int_def)
  then have one: "c_int (drop_bit 6 y + 1) = drop_bit 6 y + 1" by (rule c_int_id)
  have eq: "y + int (Suc r) * ys = (y + ys) + int r * ys" by (simp add: algebra_simps)
  have pos: "0 \<le> y + ys" using Suc.prems(1) assms(1) by simp
  have ih: "(\<lambda>sp'. rv16_lines W p_dest xs ys width (y + int (Suc r) * ys) (y + ys) sp')
              = scaled_rows W p_dest xs ys width r (y + ys)"
  proof (intro ext)
    fix sp'
    show "rv16_lines W p_dest xs ys width (y + int (Suc r) * ys) (y + ys) sp'
            = scaled_rows W p_dest xs ys width r (y + ys) sp'"
      unfolding eq using Suc.prems(2) by (intro Suc.IH[OF pos]) (simp add: algebra_simps)
  qed
  show ?case
    by (subst rv16_lines.simps)
       (simp only: lt if_True Let_def next_y one ih rv16_line_units rv16_line_lines_units
          scaled_rows.simps)
qed

text \<open>
  The counter of the unscaled loop wraps around: for the height \<open>- 1\<close>, the width 0 and
  an output of width \<open>2 ^ 30\<close> the loop ends after three turns.
\<close>

lemma i420_lines_wrap:
  "c_int (- 1 * 2 ^ 30) = - (2 ^ 30)
   \<and> map_option fst (i420_lines (2 ^ 30) 0 0 (c_int (- 1 * 2 ^ 30)) ([], black)) = Some []"
  by code_simp

lemma render_i420_rows:
  assumes "output_i_width st \<noteq> 0" and "0 \<le> i_height p_spu"
    and "is_int (i_height p_spu * output_i_width st)"
  shows "render_i420 st pix p_spu =
           map_option snd
             (unscaled_rows (output_i_width st)
                (i_x p_spu + i_width p_spu
                   + c_int (output_i_width st * c_int (i_y p_spu + i_height p_spu)))
                (i_width p_spu) (nat (i_height p_spu)) (spu_source st p_spu, pix))"
proof -
  have h: "int (nat (i_height p_spu)) = i_height p_spu" using assms(2) by simp
  have r: "is_int (int (nat (i_height p_spu)) * output_i_width st)"
    using assms(3) by (simp only: h)
  have "c_int (i_height p_spu * output_i_width st) = int (nat (i_height p_spu)) * output_i_width st"
    using assms(3) by (simp only: h c_int_id)
  then show ?thesis
    by (simp only: render_i420_def Let_def i420_lines_rows[OF assms(1) r])
qed

lemma render_rv16_rows:
  assumes "c_div (c_int (push_bit 6 (output_i_width st))) (render_i_width st) = Some xs"
    and "c_div (c_int (push_bit 6 (output_i_height st))) (render_i_height st) = Some ys"
    and "0 < ys" and "0 \<le> i_height p_spu" and "i_height p_spu * ys < 2 ^ 31"
  shows "render_rv16 st pix p_spu =
           map_option snd
             (scaled_rows (output_i_width st)
                (c_int (drop_bit 6 (c_int (i_width p_spu * xs)) * 2)
                   + c_int (drop_bit 6 (c_int (i_x p_spu * xs)) * 2)
                   + c_int (c_int (drop_bit 6 (c_int (i_y p_spu * ys)) * output_i_width st) * 2))
                xs ys (c_int (i_width p_spu * xs)) (nat (i_height p_spu)) 0
                (spu_source st p_spu, pix))"
proof -
  have h: "int (nat (i_height p_spu)) = i_height p_spu" using assms(4) by simp
  have "0 \<le> i_height p_spu * ys" using assms(3,4) by simp
  with assms(5) have "is_int (i_height p_spu * ys)" by (simp add: is_int_def)
  then have height: "c_int (i_height p_spu * ys) = 0 + int (nat (i_height p_spu)) * ys"
    by (simp only: h c_int_id add_0)
  have top: "(0 :: int) + int (nat (i_height p_spu)) * ys < 2 ^ 31"
    using assms(5) by (simp only: h add_0)
  show ?thesis
    by (simp only: render_rv16_def assms(1,2) option.case Let_def height
          rv16_lines_rows[OF assms(3) order_refl top])
qed

subsection \<open>Transparent units\<close>


lemma draw_units_transparent:
  assumes "\<forall>u\<in>set ws. unit_class u = 0"
    and "draw_units adv paint ws x pix = Some r"
  shows "snd r = pix \<and> set (fst r) \<subseteq> set ws"
  using assms
proof (induction ws arbitrary: x)
  case Nil
  then show ?case by (auto split: if_splits)
next
  case (Cons w ws)
  show ?case
  proof (cases "x = 0")
    case True
    with Cons.prems(2) show ?thesis by auto
  next
    case False
    with Cons.prems have "draw_units adv paint ws (c_int (x - adv (unit_run w))) pix = Some r"
      by simp
    with Cons.IH[of "c_int (x - adv (unit_run w))"] Cons.prems(1)
    have "snd r = pix \<and> set (fst r) \<subseteq> set ws" by simp
    then show ?thesis by auto
  qed
qed

lemma unscaled_rows_transparent:
  assumes "\<forall>u\<in>set (fst sp). unit_class u = 0"
    and "unscaled_rows W p_dest width r sp = Some sp'"
  shows "snd sp' = snd sp \<and> set (fst sp') \<subseteq> set (fst sp)"
  using assms
proof (induction r arbitrary: sp)
  case 0
  then show ?case by simp
next
  case (Suc r)
  from Suc.prems(2) obtain sp1 where
    line: "draw_units unscaled (paint_i420 p_dest (int (Suc r) * W)) (fst sp) width (snd sp) = Some sp1"
    and rest: "unscaled_rows W p_dest width r sp1 = Some sp'"
    by (auto simp: bind_eq_Some_conv)
  from draw_units_transparent[OF Suc.prems(1) line]
  have one: "snd sp1 = snd sp" "set (fst sp1) \<subseteq> set (fst sp)" by simp_all
  with Suc.prems(1) have "\<forall>u\<in>set (fst sp1). unit_class u = 0" by blast
  from Suc.IH[OF this rest] one show ?case by auto
qed

lemma scaled_rows_transparent:
  assumes "\<forall>u\<in>set (fst sp). unit_class u = 0"
    and "scaled_rows W p_dest xs ys width r y sp = Some sp'"
  shows "snd sp' = snd sp \<and> set (fst sp') \<subseteq> set (fst sp)"
  using assms
proof (induction r arbitrary: y sp)
  case 0
  then show ?case by simp
next
  case (Suc r)
  from Suc.prems(2) obtain sp1 paint where
    line: "draw_units (scaled xs) paint (fst sp) width (snd sp) = Some sp1"
    and rest: "scaled_rows W p_dest xs ys width r (y + ys) sp1 = Some sp'"
    by (auto simp: bind_eq_Some_conv split: if_splits)
  from draw_units_transparent[OF Suc.prems(1) line]
  have one: "snd sp1 = snd sp" "set (fst sp1) \<subseteq> set (fst sp)" by simp_all
  with Suc.prems(1) have "\<forall>u\<in>set (fst sp1). unit_class u = 0" by blast
  from Suc.IH[OF this rest] one show ?case by auto
qed

subsection \<open>The function\<close>

lemma render_spu_i420:
  assumes "output_i_chroma st \<in> {FOURCC_I420, FOURCC_IYUV, FOURCC_YV12}"
  shows "vout_RenderSPU st pix p_spu = map_option (\<lambda>pix'. (pix', st)) (render_i420 st pix p_spu)"
  using assms by (auto simp: vout_RenderSPU_def)

lemma render_spu_rv16:
  assumes "output_i_chroma st = FOURCC_RV16"
  shows "vout_RenderSPU st pix p_spu = map_option (\<lambda>pix'. (pix', st)) (render_rv16 st pix p_spu)"
  using assms by (simp add: vout_RenderSPU_def)


lemma render_spu_unscaled:
  assumes "output_i_chroma st \<in> {FOURCC_I420, FOURCC_IYUV, FOURCC_YV12}"
    and "output_i_width st \<noteq> 0" and "0 \<le> i_height p_spu"
    and "is_int (i_height p_spu * output_i_width st)"
  shows "vout_RenderSPU st pic p_spu =
          map_option (\<lambda>sp. (snd sp, st))
            (unscaled_rows (output_i_width st)
               (i_x p_spu + i_width p_spu
                  + c_int (output_i_width st * c_int (i_y p_spu + i_height p_spu)))
               (i_width p_spu) (nat (i_height p_spu)) (spu_source st p_spu, pic))"
  by (simp add: render_spu_i420[OF assms(1)] render_i420_rows[OF assms(2,3,4)]
        option.map_comp comp_def)

lemma render_spu_unscaled_transparent:
  assumes "output_i_chroma st \<in> {FOURCC_I420, FOURCC_IYUV, FOURCC_YV12}"
    and "output_i_width st \<noteq> 0" and "0 \<le> i_height p_spu"
    and "is_int (i_height p_spu * output_i_width st)"
    and t: "\<forall>u\<in>set (spu_source st p_spu). rle_color u = 0"
    and r: "vout_RenderSPU st pic p_spu = Some r"
  shows "r = (pic, st)"
proof -
  from r obtain sp' where
    rows: "unscaled_rows (output_i_width st)
           (i_x p_spu + i_width p_spu
              + c_int (output_i_width st * c_int (i_y p_spu + i_height p_spu)))
           (i_width p_spu) (nat (i_height p_spu)) (spu_source st p_spu, pic) = Some sp'"
    and res: "r = (snd sp', st)"
    unfolding render_spu_unscaled[OF assms(1,2,3,4)] by auto
  from t have "\<forall>u\<in>set (fst (spu_source st p_spu, pic)). unit_class u = 0"
    by (simp add: unit_class_color)
  from unscaled_rows_transparent[OF this rows] res show ?thesis by simp
qed

lemma render_spu_scaled:
  assumes "output_i_chroma st = FOURCC_RV16"
    and "c_div (c_int (push_bit 6 (output_i_width st))) (render_i_width st) = Some xscale"
    and "c_div (c_int (push_bit 6 (output_i_height st))) (render_i_height st) = Some yscale"
    and "0 < yscale" and "0 \<le> i_height p_spu" and "i_height p_spu * yscale < 2 ^ 31"
  shows "vout_RenderSPU st pic p_spu =
          map_option (\<lambda>sp. (snd sp, st))
            (scaled_rows (output_i_width st)
               (c_int (drop_bit 6 (c_int (i_width p_spu * xscale)) * 2)
                  + c_int (drop_bit 6 (c_int (i_x p_spu * xscale)) * 2)
                  + c_int (c_int (drop_bit 6 (c_int (i_y p_spu * yscale)) * output_i_width st) * 2))
               xscale yscale (c_int (i_width p_spu * xscale)) (nat (i_height p_spu)) 0
               (spu_source st p_spu, pic))"
  by (simp add: render_spu_rv16[OF assms(1)] render_rv16_rows[OF assms(2,3,4,5,6)]
        option.map_comp comp_def)

lemma render_spu_scaled_transparent:
  assumes "output_i_chroma st = FOURCC_RV16"
    and "c_div (c_int (push_bit 6 (output_i_width st))) (render_i_width st) = Some xscale"
    and "c_div (c_int (push_bit 6 (output_i_height st))) (render_i_height st) = Some yscale"
    and "0 < yscale" and "0 \<le> i_height p_spu" and "i_height p_spu * yscale < 2 ^ 31"
    and t: "\<forall>u\<in>set (spu_source st p_spu). rle_color u = 0"
    and r: "vout_RenderSPU st pic p_spu = Some r"
  shows "r = (pic, st)"
proof -
  from r obtain sp' where
    rows: "scaled_rows (output_i_width st)
           (c_int (drop_bit 6 (c_int (i_width p_spu * xscale)) * 2)
              + c_int (drop_bit 6 (c_int (i_x p_spu * xscale)) * 2)
              + c_int (c_int (drop_bit 6 (c_int (i_y p_spu * yscale)) * output_i_width st) * 2))
           xscale yscale (c_int (i_width p_spu * xscale)) (nat (i_height p_spu)) 0
           (spu_source st p_spu, pic) = Some sp'"
    and res: "r = (snd sp', st)"
    unfolding render_spu_scaled[OF assms(1,2,3,4,5,6)] by auto
  from t have "\<forall>u\<in>set (fst (spu_source st p_spu, pic)). unit_class u = 0"
    by (simp add: unit_class_color)
  from scaled_rows_transparent[OF this rows] res show ?thesis by simp
qed

lemma draw_units_transparent_step:
  assumes "x \<noteq> 0" and "rle_color w = 0"
  shows "draw_units adv paint (w # ws) x pix
           = draw_units adv paint ws (c_int (x - adv (rle_len w))) pix"
  using assms by (simp add: unit_class_color unit_run_len)

subsection \<open>Claims about the rendering\<close>

text \<open>
  The spec has a transparent unit move the cursor by its run length. In the scaled path,
  at scale 32, the unit 40 of class 0 and run length 10 moves the cursor from 640 to 320,
  and the run after it is painted from byte 10 of the line, the sixth pixel.
\<close>

theorem transparent_unit_counterexample:
  "rle_color 40 = 0 \<and> rle_len 40 = 10
   \<and> rv16_run 20 32 0 40 640 black = (320, black)
   \<and> fst (rv16_run 20 32 0 40 640 black) \<noteq> 640 - rle_len 40
   \<and> rv16_line 20 32 0 [40, 41] 640 black = rv16_line 20 32 0 [41] 320 black
   \<and> rv16_line 20 32 0 [41] 320 black \<noteq> rv16_line 20 32 0 [41] (640 - rle_len 40) black
   \<and> map_option (\<lambda>r. (fst r 9, fst r 10, fst r 20, fst r 21, fst r 22))
        (vout_RenderSPU (vout_rv16 [40, 41]) black (spu_line 20)) = Some (0, 0x44, 0x44, 0x44, 0)"
proof -
  have v: "rle_color 40 = 0" "rle_len 40 = 10" "rle_color 41 = 1" "rle_len 41 = 10"
    by (simp_all add: rle_color_def rle_len_def)
  have c: "c_int 320 = 320" "c_int 630 = 630" "c_int 310 = 310" "c_int 0 = 0"
    by (simp_all add: c_int_id is_int_def)
  have r: "rv16_run 20 32 0 40 640 black = (320, black)"
    by (simp add: rv16_run_eq v c)
  have l: "rv16_line 20 32 0 [40, 41] 640 black = rv16_line 20 32 0 [41] 320 black"
    by (simp add: r)
  have l1: "rv16_line 20 32 0 [41] 320 black \<noteq> None"
    by (simp add: rv16_run_eq v c)
  have l2: "rv16_line 20 32 0 [41] (640 - rle_len 40) black = None"
    by (simp add: rv16_run_eq v c)
  have f: "map_option (\<lambda>r. (fst r 9, fst r 10, fst r 20, fst r 21, fst r 22))
        (vout_RenderSPU (vout_rv16 [40, 41]) black (spu_line 20)) = Some (0, 0x44, 0x44, 0x44, 0)"
    by code_simp
  from v r l l1 l2 f show ?thesis by simp
qed

text \<open>
  C7 (amended). A unit of the source is four times its run length plus its class, the
  class below 4: the class is bits 0 to 1 and the run length bits 2 to 15. The unit
  \<open>(37 << 2) | 2\<close> has run length 37 and class 2. The three loops over the units of a
  line decode them as \<open>draw_units\<close> does: a unit of class 0 is transparent, it leaves the
  picture as it is and only moves the cursor, by its run length in the unscaled path and
  by its run length times the horizontal scale in the scaled path. The function draws
  the lines of the subpicture in that way, and a subpicture whose units are all of class
  0 leaves the picture as it is.
\<close>

theorem rle_unit_decoding:
  "uint w = 4 * rle_len w + int (rle_color w) \<and> rle_color w < 4
   \<and> 0 \<le> rle_len w \<and> rle_len w < 2 ^ 14
   \<and> rle_color w = unat (w AND 0x3) \<and> rle_len w = uint (drop_bit 2 w)
   \<and> unit_class w = rle_color w \<and> unit_run w = rle_len w
   \<and> rle_len (push_bit 2 37 OR 2) = 37 \<and> rle_color (push_bit 2 37 OR 2) = 2
   \<and> (x \<noteq> 0 \<and> rle_color w = 0 \<longrightarrow>
        draw_units adv paint (w # ws) x pix
          = draw_units adv paint ws (c_int (x - adv (rle_len w))) pix)
   \<and> unscaled (rle_len w) = rle_len w
   \<and> scaled i_xscale (rle_len w) = c_int (i_xscale * rle_len w)
   \<and> i420_line p_dest iy ws ix pix = draw_units unscaled (paint_i420 p_dest iy) ws ix pix
   \<and> rv16_line p_dest i_xscale i_yreal ws ix pix
       = draw_units (scaled i_xscale) (paint_rv16 p_dest i_yreal) ws ix pix
   \<and> rv16_line_lines out_width p_dest i_xscale i_yreal i_ynext ws ix pix
       = draw_units (scaled i_xscale) (paint_rv16_lines out_width p_dest i_yreal i_ynext) ws ix pix
   \<and> (output_i_chroma st \<in> {FOURCC_I420, FOURCC_IYUV, FOURCC_YV12}
        \<and> output_i_width st \<noteq> 0 \<and> 0 \<le> i_height p_spu
        \<and> is_int (i_height p_spu * output_i_width st) \<longrightarrow>
        vout_RenderSPU st pic p_spu =
          map_option (\<lambda>sp. (snd sp, st))
            (unscaled_rows (output_i_width st)
               (i_x p_spu + i_width p_spu
                  + c_int (output_i_width st * c_int (i_y p_spu + i_height p_spu)))
               (i_width p_spu) (nat (i_height p_spu)) (spu_source st p_spu, pic))
        \<and> ((\<forall>u\<in>set (spu_source st p_spu). rle_color u = 0) \<longrightarrow>
             (\<forall>r. vout_RenderSPU st pic p_spu = Some r \<longrightarrow> r = (pic, st))))
   \<and> (output_i_chroma st = FOURCC_RV16
        \<and> c_div (c_int (push_bit 6 (output_i_width st))) (render_i_width st) = Some xscale
        \<and> c_div (c_int (push_bit 6 (output_i_height st))) (render_i_height st) = Some yscale
        \<and> 0 < yscale \<and> 0 \<le> i_height p_spu \<and> i_height p_spu * yscale < 2 ^ 31 \<longrightarrow>
        vout_RenderSPU st pic p_spu =
          map_option (\<lambda>sp. (snd sp, st))
            (scaled_rows (output_i_width st)
               (c_int (drop_bit 6 (c_int (i_width p_spu * xscale)) * 2)
                  + c_int (drop_bit 6 (c_int (i_x p_spu * xscale)) * 2)
                  + c_int (c_int (drop_bit 6 (c_int (i_y p_spu * yscale)) * output_i_width st) * 2))
               xscale yscale (c_int (i_width p_spu * xscale)) (nat (i_height p_spu)) 0
               (spu_source st p_spu, pic))
        \<and> ((\<forall>u\<in>set (spu_source st p_spu). rle_color u = 0) \<longrightarrow>
             (\<forall>r. vout_RenderSPU st pic p_spu = Some r \<longrightarrow> r = (pic, st))))"
proof -
  have units: "uint w = 4 * rle_len w + int (rle_color w)" "rle_color w < 4"
    "0 \<le> rle_len w" "rle_len w < 2 ^ 14"
    "rle_color w = unat (w AND 0x3)" "rle_len w = uint (drop_bit 2 w)"
    "unit_class w = rle_color w" "unit_run w = rle_len w"
  proof -
    show "uint w = 4 * rle_len w + int (rle_color w)" by (rule rle_split)
    show "rle_color w < 4" by (simp add: rle_color_mod)
    show "0 \<le> rle_len w" by (rule rle_len_bounds(1))
    show "rle_len w < 2 ^ 14" using rle_len_bounds(2)[of w] by simp
    show "rle_color w = unat (w AND 0x3)" by (simp add: rle_color_def)
    show "rle_len w = uint (drop_bit 2 w)" by (simp add: rle_len_def)
    show "unit_class w = rle_color w" by (rule unit_class_color)
    show "unit_run w = rle_len w" by (rule unit_run_len)
  qed
  have example: "rle_len (push_bit 2 37 OR 2) = 37" "rle_color (push_bit 2 37 OR 2) = 2"
    by (simp_all add: rle_len_def rle_color_def)
  have advance: "unscaled (rle_len w) = rle_len w"
    "scaled i_xscale (rle_len w) = c_int (i_xscale * rle_len w)"
    by (simp_all add: unscaled_def scaled_def)
  show ?thesis
    by (intro conjI impI allI; (elim conjE)?;
        (rule units example advance i420_line_units rv16_line_units rv16_line_lines_units
           draw_units_transparent_step render_spu_unscaled render_spu_unscaled_transparent
           render_spu_scaled render_spu_scaled_transparent; assumption))
qed

theorem rle_unit_decoding_witness:
  "rle_color 40 = 0 \<and> rle_len 40 = 10 \<and> rle_color 41 = 1 \<and> rle_len 41 = 10
   \<and> draw_units unscaled (paint_i420 740 720) [40, 41] 20 black
       = draw_units unscaled (paint_i420 740 720) [41] 10 black
   \<and> output_i_chroma (vout_i420 [40, 41]) \<in> {FOURCC_I420, FOURCC_IYUV, FOURCC_YV12}
   \<and> output_i_width (vout_i420 [40, 41]) \<noteq> 0
   \<and> 0 \<le> i_height (spu_line 20)
   \<and> is_int (i_height (spu_line 20) * output_i_width (vout_i420 [40, 41]))
   \<and> vout_RenderSPU (vout_i420 [40, 41]) black (spu_line 20)
       = Some (memset 10 0x44 10 black, vout_i420 [40, 41])
   \<and> spu_source (vout_i420 [40, 40]) (spu_line 20) = [40, 40]
   \<and> vout_RenderSPU (vout_i420 [40, 40]) black (spu_line 20) = Some (black, vout_i420 [40, 40])
   \<and> output_i_chroma (vout_rv16 [40, 41]) = FOURCC_RV16
   \<and> c_div (c_int (push_bit 6 (output_i_width (vout_rv16 [40, 41]))))
        (render_i_width (vout_rv16 [40, 41])) = Some 32
   \<and> c_div (c_int (push_bit 6 (output_i_height (vout_rv16 [40, 41]))))
        (render_i_height (vout_rv16 [40, 41])) = Some 64
   \<and> i_height (spu_line 20) * 64 < 2 ^ 31
   \<and> vout_RenderSPU (vout_rv16 [40, 41]) black (spu_line 20)
       = Some (memset 10 0x44 12 black, vout_rv16 [40, 41])
   \<and> spu_source (vout_rv16 [40, 40]) (spu_line 20) = [40, 40]
   \<and> vout_RenderSPU (vout_rv16 [40, 40]) black (spu_line 20) = Some (black, vout_rv16 [40, 40])"
proof -
  have v: "rle_color 40 = 0" "rle_len 40 = 10" "rle_color 41 = 1" "rle_len 41 = 10"
    by (simp_all add: rle_color_def rle_len_def)
  have u: "unit_class 40 = 0" "unit_run 40 = 10" "unit_class 41 = 1" "unit_run 41 = 10"
    by (simp_all add: unit_class_color unit_run_len v)
  have c: "\<And>x. - 2147483648 \<le> x \<Longrightarrow> x < 2147483648 \<Longrightarrow> c_int x = x"
    by (simp add: c_int_id is_int_def)
  have s: "\<And>units. spu_source (vout_i420 units) (spu_line 20) = units"
    "\<And>units. spu_source (vout_rv16 units) (spu_line 20) = units"
    by (simp_all add: spu_source_def vout_i420_def vout_rv16_def spu_line_def)
  have f: "\<And>units. output_i_chroma (vout_i420 units) = FOURCC_I420"
    "\<And>units. output_i_width (vout_i420 units) = 720"
    "\<And>units. output_i_chroma (vout_rv16 units) = FOURCC_RV16"
    "\<And>units. output_i_width (vout_rv16 units) = 360"
    "\<And>units. render_i_width (vout_rv16 units) = 720"
    "\<And>units. output_i_height (vout_rv16 units) = 480"
    "\<And>units. render_i_height (vout_rv16 units) = 480"
    "i_height (spu_line 20) = 1" "i_width (spu_line 20) = 20"
    "i_x (spu_line 20) = 0" "i_y (spu_line 20) = 0"
    by (simp_all add: vout_i420_def vout_rv16_def vout0_def spu_line_def slot0_def)
  have d: "c_div (c_int (push_bit 6 360)) 720 = Some 32"
    "c_div (c_int (push_bit 6 480)) 480 = Some 64"
    by (simp_all add: c_div_def c signed_divide_int_def)
  have r: "is_int (1 * 720)" by (simp add: is_int_def)
  note ev = unscaled_rows.simps scaled_rows.simps draw_units.simps u c unscaled_def scaled_def
    paint_i420_def paint_rv16_def p_clut8_def p_clut16_low_byte drop_bit_eq_div
  note i1 = rle_unit_decoding[where w = 40 and x = 20 and adv = unscaled
      and paint = "paint_i420 740 720" and ws = "[41]" and pix = black
      and st = "vout_i420 [40, 41]" and p_spu = "spu_line 20" and pic = black]
  note i2 = rle_unit_decoding[where st = "vout_i420 [40, 40]" and p_spu = "spu_line 20"
      and pic = black]
  note r1 = rle_unit_decoding[where st = "vout_rv16 [40, 41]" and p_spu = "spu_line 20"
      and pic = black and xscale = 32 and yscale = 64]
  note r2 = rle_unit_decoding[where st = "vout_rv16 [40, 40]" and p_spu = "spu_line 20"
      and pic = black and xscale = 32 and yscale = 64]
  have step: "draw_units unscaled (paint_i420 740 720) [40, 41] 20 black
       = draw_units unscaled (paint_i420 740 720) [41] 10 black"
    using i1 v by (simp add: unscaled_def c)
  have a1: "vout_RenderSPU (vout_i420 [40, 41]) black (spu_line 20)
       = Some (memset 10 0x44 10 black, vout_i420 [40, 41])"
    using i1 r by (simp add: f s ev numeral_2_eq_2 del: One_nat_def)
  have a2: "vout_RenderSPU (vout_i420 [40, 40]) black (spu_line 20)
       = Some (black, vout_i420 [40, 40])"
    using i2 r by (simp add: f s ev del: One_nat_def)
  have b1: "vout_RenderSPU (vout_rv16 [40, 41]) black (spu_line 20)
       = Some (memset 10 0x44 12 black, vout_rv16 [40, 41])"
    using r1 d by (simp add: f s ev del: One_nat_def)
  have b2: "vout_RenderSPU (vout_rv16 [40, 40]) black (spu_line 20)
       = Some (black, vout_rv16 [40, 40])"
    using r2 d by (simp add: f s ev del: One_nat_def)
  show ?thesis
    using v step a1 a2 b1 b2 d r by (simp add: f s)
qed




subsection \<open>The scan of vout_SortSubPictures\<close>

lemma sort_loop_last:
  "i \<le> n \<Longrightarrow> sort_loop d (Suc n) i s = sort_body d n (sort_loop d n i s)"
proof (induction "n - i" arbitrary: i s)
  case 0
  then have "i = n" by simp
  then show ?case by (simp add: sort_loop.simps)
next
  case (Suc m)
  then have lt: "i < n" and m: "m = n - Suc i" and le: "Suc i \<le> n" by simp_all
  have "sort_loop d (Suc n) i s = sort_loop d (Suc n) (Suc i) (sort_body d i s)"
    using lt by (subst sort_loop.simps) simp
  also have "\<dots> = sort_body d n (sort_loop d n (Suc i) (sort_body d i s))"
    by (rule Suc.hyps(1)[OF m le])
  also have "sort_loop d n (Suc i) (sort_body d i s) = sort_loop d n i s"
    using lt by (subst (2) sort_loop.simps) simp
  finally show ?case .
qed

lemma scan_upto_0:
  "scan_upto d st 0 = \<lparr>p_vout = st, p_subpic = None, p_ephemer = None, ephemer_date = 0\<rparr>"
  by (simp add: scan_upto_def sort_loop.simps)

lemma scan_upto_Suc: "scan_upto d st (Suc k) = sort_body d k (scan_upto d st k)"
  by (simp add: scan_upto_def sort_loop_last)

lemma sort_scan_upto: "sort_scan d st = scan_upto d st (length (p_subpicture st))"
  by (simp add: sort_scan_def scan_upto_def)

lemma links_update_other:
  "x \<notin> set xs \<Longrightarrow> links (pool[x := sp]) p xs = links pool p xs"
  by (induction xs arbitrary: p) auto

lemma links_subpic_list:
  "links pool p xs \<Longrightarrow> length xs \<le> fuel \<Longrightarrow> subpic_list pool fuel p = Some xs"
proof (induction xs arbitrary: p fuel)
  case Nil
  then show ?case by simp
next
  case (Cons x xs)
  then obtain f where f: "fuel = Suc f" by (cases fuel) auto
  with Cons show ?case by simp
qed

lemma head_of_links: "links pool p xs \<Longrightarrow> p = (case xs of [] \<Rightarrow> None | x # _ \<Rightarrow> Some x)"
  by (cases xs) auto

subsection \<open>Properties of the list form of the scan\<close>

lemma scan_list_bounds:
  "scan_list d pool k = (linked, cand, date) \<Longrightarrow>
     (\<forall>x \<in> set linked. x < k) \<and> (\<forall>x. cand = Some x \<longrightarrow> x < k \<and> x \<notin> set linked)
     \<and> distinct linked"
proof (induction k arbitrary: linked cand date)
  case 0
  then show ?case by simp
next
  case (Suc k)
  obtain l c t where prev: "scan_list d pool k = (l, c, t)"
    by (cases "scan_list d pool k") auto
  note ih = Suc.IH[OF prev]
  from ih have fresh: "k \<notin> set l" "c \<noteq> Some k" by auto
  from Suc.prems have step: "scan_step d pool k (l, c, t) = (linked, cand, date)"
    by (simp add: prev)
  show ?case
    using step ih fresh
    by (auto simp: scan_step_def less_Suc_eq split: if_splits option.splits)
qed

lemma scan_list_members:
  "scan_list d pool k = (linked, cand, date) \<Longrightarrow>
     (\<forall>j. j \<in> set linked \<or> cand = Some j \<longleftrightarrow> j < k \<and> shown d (pool ! j))
     \<and> (\<forall>x. cand = Some x \<longrightarrow> fresh_ephemer d (pool ! x))"
proof (induction k arbitrary: linked cand date)
  case 0
  then show ?case by simp
next
  case (Suc k)
  obtain l c t where prev: "scan_list d pool k = (l, c, t)"
    by (cases "scan_list d pool k") auto
  note ih = Suc.IH[OF prev]
  from scan_list_bounds[OF prev] have fresh: "k \<notin> set l" "c \<noteq> Some k" by auto
  from Suc.prems have step: "scan_step d pool k (l, c, t) = (linked, cand, date)"
    by (simp add: prev)
  have 1: "\<forall>x. cand = Some x \<longrightarrow> fresh_ephemer d (pool ! x)"
    using step ih
    by (auto simp: scan_step_def fresh_ephemer_def split: if_splits option.splits)
  have 2: "\<forall>j. j \<in> set linked \<or> cand = Some j \<longleftrightarrow> j < Suc k \<and> shown d (pool ! j)"
  proof (intro allI)
    fix j
    from ih have old: "j \<in> set l \<or> c = Some j \<longleftrightarrow> j < k \<and> shown d (pool ! j)" by blast
    show "j \<in> set linked \<or> cand = Some j \<longleftrightarrow> j < Suc k \<and> shown d (pool ! j)"
    proof (cases "j = k")
      case True
      with step fresh show ?thesis
        by (auto simp: scan_step_def shown_def split: if_splits option.splits)
    next
      case False
      have "j \<in> set linked \<or> cand = Some j \<longleftrightarrow> j \<in> set l \<or> c = Some j"
        using step False
        by (auto simp: scan_step_def split: if_splits option.splits)
      with old False show ?thesis by (simp add: less_Suc_eq)
    qed
  qed
  from 1 2 show ?case by blast
qed

subsection \<open>The loop and its list form\<close>

lemma slots_after_0: "slots_after d 0 pool0 pool0"
  by (simp add: slots_after_def)

lemma slots_after_fields:
  assumes "slots_after d k pool0 pool" "j < length pool0"
  shows "i_start (pool ! j) = i_start (pool0 ! j)" "i_stop (pool ! j) = i_stop (pool0 ! j)"
    "i_type (pool ! j) = i_type (pool0 ! j)" "b_ephemer (pool ! j) = b_ephemer (pool0 ! j)"
    "i_status (pool ! j) = (if j < k \<and> expired d (pool0 ! j) then DESTROYED_SUBPICTURE
                            else i_status (pool0 ! j))"
proof -
  from assms have eq: "pool ! j = (pool0 ! j)\<lparr>p_next := p_next (pool ! j),
                      i_status := (if j < k \<and> expired d (pool0 ! j) then DESTROYED_SUBPICTURE
                                   else i_status (pool0 ! j))\<rparr>"
    by (simp add: slots_after_def)
  show "i_start (pool ! j) = i_start (pool0 ! j)" by (subst eq) simp
  show "i_stop (pool ! j) = i_stop (pool0 ! j)" by (subst eq) simp
  show "i_type (pool ! j) = i_type (pool0 ! j)" by (subst eq) simp
  show "b_ephemer (pool ! j) = b_ephemer (pool0 ! j)" by (subst eq) simp
  show "i_status (pool ! j) = (if j < k \<and> expired d (pool0 ! j) then DESTROYED_SUBPICTURE
                            else i_status (pool0 ! j))" by (subst eq) simp
qed

lemma slots_after_skip:
  assumes "slots_after d k pool0 pool" "\<not> expired d (pool0 ! k)"
  shows "slots_after d (Suc k) pool0 pool"
  unfolding slots_after_def
proof (intro conjI allI impI)
  show "length pool = length pool0" using assms(1) by (simp add: slots_after_def)
next
  fix j assume j: "j < length pool0"
  from assms(1) j have eq: "pool ! j = (pool0 ! j)\<lparr>p_next := p_next (pool ! j),
                      i_status := (if j < k \<and> expired d (pool0 ! j) then DESTROYED_SUBPICTURE
                                   else i_status (pool0 ! j))\<rparr>"
    by (simp add: slots_after_def)
  have "(j < Suc k \<and> expired d (pool0 ! j)) = (j < k \<and> expired d (pool0 ! j))"
    using assms(2) by (auto simp: less_Suc_eq)
  with eq show "pool ! j = (pool0 ! j)\<lparr>p_next := p_next (pool ! j),
                      i_status := (if j < Suc k \<and> expired d (pool0 ! j) then DESTROYED_SUBPICTURE
                                   else i_status (pool0 ! j))\<rparr>"
    by simp
next
  fix j assume "Suc k \<le> j \<and> j < length pool0"
  with assms(1) show "pool ! j = pool0 ! j" by (simp add: slots_after_def)
qed

lemma slots_after_link:
  assumes "slots_after d k pool0 pool" "x < k"
  shows "slots_after d k pool0 (pool[x := (pool ! x)\<lparr>p_next := p\<rparr>])"
  unfolding slots_after_def
proof (intro conjI allI impI)
  show "length (pool[x := (pool ! x)\<lparr>p_next := p\<rparr>]) = length pool0"
    using assms(1) by (simp add: slots_after_def)
next
  fix j assume j: "j < length pool0"
  from assms(1) have len: "length pool = length pool0" by (simp add: slots_after_def)
  from assms(1) j have eq: "pool ! j = (pool0 ! j)\<lparr>p_next := p_next (pool ! j),
                      i_status := (if j < k \<and> expired d (pool0 ! j) then DESTROYED_SUBPICTURE
                                   else i_status (pool0 ! j))\<rparr>"
    by (simp add: slots_after_def)
  show "pool[x := (pool ! x)\<lparr>p_next := p\<rparr>] ! j =
        (pool0 ! j)\<lparr>p_next := p_next (pool[x := (pool ! x)\<lparr>p_next := p\<rparr>] ! j),
                    i_status := (if j < k \<and> expired d (pool0 ! j) then DESTROYED_SUBPICTURE
                                 else i_status (pool0 ! j))\<rparr>"
  proof (cases "j = x")
    case True
    have "(pool ! j)\<lparr>p_next := p\<rparr> = (pool0 ! j)\<lparr>p_next := p,
                      i_status := (if j < k \<and> expired d (pool0 ! j) then DESTROYED_SUBPICTURE
                                   else i_status (pool0 ! j))\<rparr>"
      by (subst eq) simp
    with True j len show ?thesis by simp
  next
    case False
    with eq show ?thesis by simp
  qed
next
  fix j assume j: "k \<le> j \<and> j < length pool0"
  with assms show "pool[x := (pool ! x)\<lparr>p_next := p\<rparr>] ! j = pool0 ! j"
    by (simp add: slots_after_def)
qed

lemma slots_after_destroy:
  assumes "slots_after d k pool0 pool" "k < length pool0" "expired d (pool0 ! k)"
  shows "slots_after d (Suc k) pool0 (pool[k := (pool ! k)\<lparr>i_status := DESTROYED_SUBPICTURE\<rparr>])"
  unfolding slots_after_def
proof (intro conjI allI impI)
  show "length (pool[k := (pool ! k)\<lparr>i_status := DESTROYED_SUBPICTURE\<rparr>]) = length pool0"
    using assms(1) by (simp add: slots_after_def)
next
  fix j assume j: "j < length pool0"
  from assms(1) have len: "length pool = length pool0" by (simp add: slots_after_def)
  from assms(1) j have eq: "pool ! j = (pool0 ! j)\<lparr>p_next := p_next (pool ! j),
                      i_status := (if j < k \<and> expired d (pool0 ! j) then DESTROYED_SUBPICTURE
                                   else i_status (pool0 ! j))\<rparr>"
    by (simp add: slots_after_def)
  show "pool[k := (pool ! k)\<lparr>i_status := DESTROYED_SUBPICTURE\<rparr>] ! j =
        (pool0 ! j)\<lparr>p_next := p_next (pool[k := (pool ! k)\<lparr>i_status := DESTROYED_SUBPICTURE\<rparr>] ! j),
                    i_status := (if j < Suc k \<and> expired d (pool0 ! j) then DESTROYED_SUBPICTURE
                                 else i_status (pool0 ! j))\<rparr>"
  proof (cases "j = k")
    case True
    have "(pool ! j)\<lparr>i_status := DESTROYED_SUBPICTURE\<rparr> =
          (pool0 ! j)\<lparr>p_next := p_next (pool ! j), i_status := DESTROYED_SUBPICTURE\<rparr>"
      by (subst eq) simp
    with True j len assms(3) show ?thesis by simp
  next
    case False
    then have "(j < Suc k \<and> expired d (pool0 ! j)) = (j < k \<and> expired d (pool0 ! j))"
      by (auto simp: less_Suc_eq)
    with eq False show ?thesis by simp
  qed
next
  fix j assume j: "Suc k \<le> j \<and> j < length pool0"
  with assms(1) show "pool[k := (pool ! k)\<lparr>i_status := DESTROYED_SUBPICTURE\<rparr>] ! j = pool0 ! j"
    by (simp add: slots_after_def)
qed

lemma links_push:
  assumes "links pool (head_ptr xs) xs" "x \<notin> set xs" "x < length pool"
  shows "links (pool[x := (pool ! x)\<lparr>p_next := head_ptr xs\<rparr>]) (head_ptr (x # xs)) (x # xs)"
  using assms by (simp add: head_ptr_def links_update_other)

lemma sort_body_step:
  assumes k: "k < length pool0"
    and sl: "slots_after d k pool0 pool"
    and li: "links pool (head_ptr l) l"
    and lb: "\<forall>x \<in> set l. x < k"
    and cb: "\<forall>x. c = Some x \<longrightarrow> x < k \<and> x \<notin> set l"
  shows "\<exists>pool'. sort_body d k (loop_state st pool (l, c, t))
                    = loop_state st pool' (scan_step d pool0 k (l, c, t))
               \<and> slots_after d (Suc k) pool0 pool'
               \<and> links pool' (head_ptr (fst (scan_step d pool0 k (l, c, t))))
                    (fst (scan_step d pool0 k (l, c, t)))"
proof -
  from sl have len: "length pool = length pool0" by (simp add: slots_after_def)
  from sl k have same: "pool ! k = pool0 ! k" by (simp add: slots_after_def)
  from lb have kl: "k \<notin> set l" by auto
  have klen: "k < length pool" using k len by simp
  let ?sp = "pool0 ! k"
  consider (idle) "i_status ?sp \<noteq> READY_SUBPICTURE"
    | (plain) "i_status ?sp = READY_SUBPICTURE" "i_type ?sp \<noteq> DVD_SUBPICTURE"
    | (late) "i_status ?sp = READY_SUBPICTURE" "i_type ?sp = DVD_SUBPICTURE" "d > i_stop ?sp"
    | (early) "i_status ?sp = READY_SUBPICTURE" "i_type ?sp = DVD_SUBPICTURE"
        "\<not> d > i_stop ?sp" "d < i_start ?sp"
    | (first) "i_status ?sp = READY_SUBPICTURE" "i_type ?sp = DVD_SUBPICTURE"
        "\<not> d > i_stop ?sp" "\<not> d < i_start ?sp" "b_ephemer ?sp" "c = None"
    | (demote) e where "i_status ?sp = READY_SUBPICTURE" "i_type ?sp = DVD_SUBPICTURE"
        "\<not> d > i_stop ?sp" "\<not> d < i_start ?sp" "b_ephemer ?sp" "c = Some e"
        "i_start ?sp < i_start (pool0 ! e)"
    | (keep) e where "i_status ?sp = READY_SUBPICTURE" "i_type ?sp = DVD_SUBPICTURE"
        "\<not> d > i_stop ?sp" "\<not> d < i_start ?sp" "b_ephemer ?sp" "c = Some e"
        "\<not> i_start ?sp < i_start (pool0 ! e)"
    | (dated) "i_status ?sp = READY_SUBPICTURE" "i_type ?sp = DVD_SUBPICTURE"
        "\<not> d > i_stop ?sp" "\<not> d < i_start ?sp" "\<not> b_ephemer ?sp"
    by (cases c) auto
  then show ?thesis
  proof cases
    case idle
    then have ne: "\<not> expired d ?sp" by (simp add: expired_def)
    have "sort_body d k (loop_state st pool (l, c, t)) = loop_state st pool (scan_step d pool0 k (l, c, t))"
      using idle by (simp add: sort_body_def loop_state_def scan_step_def same Let_def)
    moreover have "fst (scan_step d pool0 k (l, c, t)) = l"
      using idle by (simp add: scan_step_def)
    ultimately show ?thesis using slots_after_skip[OF sl ne] li by auto
  next
    case plain
    then have ne: "\<not> expired d ?sp" by (simp add: expired_def)
    let ?pool' = "pool[k := (pool ! k)\<lparr>p_next := head_ptr l\<rparr>]"
    have "sort_body d k (loop_state st pool (l, c, t)) = loop_state st ?pool' (scan_step d pool0 k (l, c, t))"
      using plain
      by (simp add: sort_body_def loop_state_def scan_step_def same Let_def link_subpic_def
            set_p_next_def head_ptr_def)
    moreover have f: "fst (scan_step d pool0 k (l, c, t)) = k # l"
      using plain by (simp add: scan_step_def)
    moreover have "slots_after d (Suc k) pool0 ?pool'"
      by (rule slots_after_link[OF slots_after_skip[OF sl ne]]) simp
    moreover have "links ?pool' (head_ptr (k # l)) (k # l)"
      by (rule links_push[OF li kl klen])
    ultimately show ?thesis by auto
  next
    case late
    then have ex: "expired d ?sp" by (simp add: expired_def)
    let ?pool' = "pool[k := (pool ! k)\<lparr>i_status := DESTROYED_SUBPICTURE\<rparr>]"
    have "sort_body d k (loop_state st pool (l, c, t)) = loop_state st ?pool' (scan_step d pool0 k (l, c, t))"
      using late
      by (simp add: sort_body_def loop_state_def scan_step_def same Let_def in_window_def
            vout_DestroySubPicture_def)
    moreover have f: "fst (scan_step d pool0 k (l, c, t)) = l"
      using late by (simp add: scan_step_def in_window_def)
    moreover have "links ?pool' (head_ptr l) l"
      using li kl by (simp add: links_update_other)
    ultimately show ?thesis using slots_after_destroy[OF sl k ex] by auto
  next
    case early
    then have ne: "\<not> expired d ?sp" by (simp add: expired_def)
    have "sort_body d k (loop_state st pool (l, c, t)) = loop_state st pool (scan_step d pool0 k (l, c, t))"
      using early by (simp add: sort_body_def loop_state_def scan_step_def same Let_def in_window_def)
    moreover have "fst (scan_step d pool0 k (l, c, t)) = l"
      using early by (simp add: scan_step_def in_window_def)
    ultimately show ?thesis using slots_after_skip[OF sl ne] li by auto
  next
    case first
    then have ne: "\<not> expired d ?sp" by (simp add: expired_def)
    have "sort_body d k (loop_state st pool (l, c, t)) = loop_state st pool (scan_step d pool0 k (l, c, t))"
      using first by (simp add: sort_body_def loop_state_def scan_step_def same Let_def in_window_def)
    moreover have "fst (scan_step d pool0 k (l, c, t)) = l"
      using first by (simp add: scan_step_def in_window_def)
    ultimately show ?thesis using slots_after_skip[OF sl ne] li by auto
  next
    case demote
    then have ne: "\<not> expired d ?sp" by (simp add: expired_def)
    from demote cb have ek: "e < k" and el: "e \<notin> set l" by auto
    then have elen: "e < length pool" "e < length pool0" using k len by simp_all
    have es: "i_start (pool ! e) = i_start (pool0 ! e)"
      by (rule slots_after_fields(1)[OF sl elen(2)])
    let ?pool' = "pool[e := (pool ! e)\<lparr>p_next := head_ptr l\<rparr>]"
    have "sort_body d k (loop_state st pool (l, c, t)) = loop_state st ?pool' (scan_step d pool0 k (l, c, t))"
      using demote ek elen es
      by (simp add: sort_body_def loop_state_def scan_step_def same Let_def in_window_def
            link_subpic_def set_p_next_def head_ptr_def register_date_def register_start_def)
    moreover have f: "fst (scan_step d pool0 k (l, c, t)) = e # l"
      using demote by (simp add: scan_step_def in_window_def)
    moreover have "slots_after d (Suc k) pool0 ?pool'"
      by (rule slots_after_link[OF slots_after_skip[OF sl ne]]) (use ek in simp)
    moreover have "links ?pool' (head_ptr (e # l)) (e # l)"
      by (rule links_push[OF li el elen(1)])
    ultimately show ?thesis by auto
  next
    case keep
    then have ne: "\<not> expired d ?sp" by (simp add: expired_def)
    from keep cb have ek: "e < k" by auto
    then have elen: "e < length pool0" using k by simp
    have es: "i_start (pool ! e) = i_start (pool0 ! e)"
      by (rule slots_after_fields(1)[OF sl elen])
    let ?pool' = "pool[k := (pool ! k)\<lparr>p_next := head_ptr l\<rparr>]"
    have "sort_body d k (loop_state st pool (l, c, t)) = loop_state st ?pool' (scan_step d pool0 k (l, c, t))"
      using keep klen es
      by (simp add: sort_body_def loop_state_def scan_step_def same Let_def in_window_def
            link_subpic_def set_p_next_def head_ptr_def register_date_def register_start_def)
    moreover have f: "fst (scan_step d pool0 k (l, c, t)) = k # l"
      using keep by (simp add: scan_step_def in_window_def)
    moreover have "slots_after d (Suc k) pool0 ?pool'"
      by (rule slots_after_link[OF slots_after_skip[OF sl ne]]) simp
    moreover have "links ?pool' (head_ptr (k # l)) (k # l)"
      by (rule links_push[OF li kl klen])
    ultimately show ?thesis by auto
  next
    case dated
    then have ne: "\<not> expired d ?sp" by (simp add: expired_def)
    let ?pool' = "pool[k := (pool ! k)\<lparr>p_next := head_ptr l\<rparr>]"
    have "sort_body d k (loop_state st pool (l, c, t)) = loop_state st ?pool' (scan_step d pool0 k (l, c, t))"
      using dated klen
      by (simp add: sort_body_def loop_state_def scan_step_def same Let_def in_window_def
            link_subpic_def set_p_next_def head_ptr_def register_date_def register_start_def)
    moreover have f: "fst (scan_step d pool0 k (l, c, t)) = k # l"
      using dated by (simp add: scan_step_def in_window_def)
    moreover have "slots_after d (Suc k) pool0 ?pool'"
      by (rule slots_after_link[OF slots_after_skip[OF sl ne]]) simp
    moreover have "links ?pool' (head_ptr (k # l)) (k # l)"
      by (rule links_push[OF li kl klen])
    ultimately show ?thesis by auto
  qed
qed

lemma scan_refines:
  "k \<le> length (p_subpicture st) \<Longrightarrow>
   \<exists>pool. scan_upto d st k = loop_state st pool (scan_list d (p_subpicture st) k)
        \<and> slots_after d k (p_subpicture st) pool
        \<and> links pool (head_ptr (fst (scan_list d (p_subpicture st) k)))
             (fst (scan_list d (p_subpicture st) k))"
proof (induction k)
  case 0
  have "scan_upto d st 0 = loop_state st (p_subpicture st) (scan_list d (p_subpicture st) 0)"
    by (simp add: scan_upto_0 loop_state_def head_ptr_def)
  then show ?case
    using slots_after_0[of d "p_subpicture st"] by (auto simp: head_ptr_def)
next
  case (Suc k)
  then have k: "k < length (p_subpicture st)" by simp
  obtain l c t where prev: "scan_list d (p_subpicture st) k = (l, c, t)"
    by (cases "scan_list d (p_subpicture st) k") auto
  from Suc.IH k prev obtain pool where
    st: "scan_upto d st k = loop_state st pool (l, c, t)"
    and sl: "slots_after d k (p_subpicture st) pool"
    and li: "links pool (head_ptr l) l"
    by auto
  from scan_list_bounds[OF prev]
  have lb: "\<forall>x \<in> set l. x < k" and cb: "\<forall>x. c = Some x \<longrightarrow> x < k \<and> x \<notin> set l"
    by auto
  from sort_body_step[OF k sl li lb cb, of st t]
  show ?case
    by (simp add: scan_upto_Suc st prev)
qed

lemma distinct_bounded_length:
  assumes "distinct xs" "\<forall>x \<in> set xs. x < n"
  shows "length xs \<le> n"
proof -
  have "length xs = card (set xs)" using assms(1) by (simp add: distinct_card)
  also have "\<dots> \<le> card {..<n}"
    by (rule card_mono) (use assms(2) in auto)
  finally show ?thesis by simp
qed

lemma sort_result:
  "\<exists>pool'. vout_SortSubPictures d st
             = (head_ptr (result_list d (p_subpicture st)), st\<lparr>p_subpicture := pool'\<rparr>)
      \<and> length pool' = length (p_subpicture st)
      \<and> links pool' (head_ptr (result_list d (p_subpicture st))) (result_list d (p_subpicture st))
      \<and> (\<forall>j < length (p_subpicture st).
            pool' ! j = (p_subpicture st ! j)\<lparr>p_next := p_next (pool' ! j),
               i_status := (if expired d (p_subpicture st ! j) \<or> superseded d (p_subpicture st) j
                            then DESTROYED_SUBPICTURE else i_status (p_subpicture st ! j))\<rparr>)"
proof -
  let ?pool0 = "p_subpicture st"
  let ?n = "length ?pool0"
  obtain l c t where fin: "scan_list d ?pool0 ?n = (l, c, t)"
    by (cases "scan_list d ?pool0 ?n") auto
  from scan_refines[of ?n st d] fin obtain pool where
    st: "sort_scan d st = loop_state st pool (l, c, t)"
    and sl: "slots_after d ?n ?pool0 pool"
    and li: "links pool (head_ptr l) l"
    by (auto simp: sort_scan_upto)
  from sl have len: "length pool = ?n" by (simp add: slots_after_def)
  from sl have slots: "\<forall>j < ?n. pool ! j = (?pool0 ! j)\<lparr>p_next := p_next (pool ! j),
          i_status := (if expired d (?pool0 ! j) then DESTROYED_SUBPICTURE else i_status (?pool0 ! j))\<rparr>"
    by (simp add: slots_after_def)
  from scan_list_bounds[OF fin]
  have cb: "\<forall>x. c = Some x \<longrightarrow> x < ?n \<and> x \<notin> set l" by auto
  from scan_list_members[OF fin]
  have cf: "\<forall>x. c = Some x \<longrightarrow> fresh_ephemer d (?pool0 ! x)" by auto
  show ?thesis
  proof (cases c)
    case None
    have 1: "vout_SortSubPictures d st = (head_ptr l, st\<lparr>p_subpicture := pool\<rparr>)"
      by (simp add: vout_SortSubPictures_def st loop_state_def None Let_def)
    have 2: "result_list d ?pool0 = l" by (simp add: result_list_def fin None)
    have 3: "\<And>j. \<not> superseded d ?pool0 j" by (simp add: superseded_def fin None)
    show ?thesis
    proof (intro exI[of _ pool] conjI)
      show "vout_SortSubPictures d st = (head_ptr (result_list d ?pool0), st\<lparr>p_subpicture := pool\<rparr>)"
        by (simp only: 1 2)
      show "length pool = ?n" by (rule len)
      show "links pool (head_ptr (result_list d ?pool0)) (result_list d ?pool0)"
        unfolding 2 by (rule li)
      show "\<forall>j < ?n. pool ! j = (?pool0 ! j)\<lparr>p_next := p_next (pool ! j),
               i_status := (if expired d (?pool0 ! j) \<or> superseded d ?pool0 j
                            then DESTROYED_SUBPICTURE else i_status (?pool0 ! j))\<rparr>"
        using slots by (simp add: 3)
    qed
  next
    case (Some e)
    with cb cf have e: "e < ?n" "e \<notin> set l" "fresh_ephemer d (?pool0 ! e)" by auto
    then have ne: "\<not> expired d (?pool0 ! e)" by (simp add: fresh_ephemer_def expired_def in_window_def)
    have es: "i_start (pool ! e) = i_start (?pool0 ! e)"
      by (rule slots_after_fields(1)[OF sl e(1)])
    have est: "i_status (pool ! e) = READY_SUBPICTURE"
      using slots_after_fields(5)[OF sl e(1)] ne e(3) by (simp add: fresh_ephemer_def)
    show ?thesis
    proof (cases "i_start (?pool0 ! e) < t")
      case True
      let ?pool' = "pool[e := (pool ! e)\<lparr>i_status := DESTROYED_SUBPICTURE\<rparr>]"
      have 1: "vout_SortSubPictures d st = (head_ptr l, st\<lparr>p_subpicture := ?pool'\<rparr>)"
        using True es est
        by (simp add: vout_SortSubPictures_def st loop_state_def Some Let_def
              vout_DestroySubPicture_def)
      have 2: "result_list d ?pool0 = l" by (simp add: result_list_def fin Some True)
      have sup: "\<And>j. superseded d ?pool0 j \<longleftrightarrow> j = e"
        using True by (auto simp: superseded_def fin Some)
      have 3: "links ?pool' (head_ptr l) l"
        using li e(2) by (simp add: links_update_other)
      have 4: "\<forall>j < ?n. ?pool' ! j = (?pool0 ! j)\<lparr>p_next := p_next (?pool' ! j),
               i_status := (if expired d (?pool0 ! j) \<or> j = e
                            then DESTROYED_SUBPICTURE else i_status (?pool0 ! j))\<rparr>"
      proof (intro allI impI)
        fix j assume j: "j < ?n"
        with slots have eq: "pool ! j = (?pool0 ! j)\<lparr>p_next := p_next (pool ! j),
          i_status := (if expired d (?pool0 ! j) then DESTROYED_SUBPICTURE else i_status (?pool0 ! j))\<rparr>"
          by simp
        show "?pool' ! j = (?pool0 ! j)\<lparr>p_next := p_next (?pool' ! j),
               i_status := (if expired d (?pool0 ! j) \<or> j = e
                            then DESTROYED_SUBPICTURE else i_status (?pool0 ! j))\<rparr>"
        proof (cases "j = e")
          case True
          have "(pool ! j)\<lparr>i_status := DESTROYED_SUBPICTURE\<rparr>
                = (?pool0 ! j)\<lparr>p_next := p_next (pool ! j), i_status := DESTROYED_SUBPICTURE\<rparr>"
            by (subst eq) simp
          with True j len show ?thesis by simp
        next
          case False
          with eq show ?thesis by simp
        qed
      qed
      show ?thesis
      proof (intro exI[of _ ?pool'] conjI)
        show "vout_SortSubPictures d st
              = (head_ptr (result_list d ?pool0), st\<lparr>p_subpicture := ?pool'\<rparr>)"
          by (simp only: 1 2)
        show "length ?pool' = ?n" by (simp add: len)
        show "links ?pool' (head_ptr (result_list d ?pool0)) (result_list d ?pool0)"
          unfolding 2 by (rule 3)
        show "\<forall>j < ?n. ?pool' ! j = (?pool0 ! j)\<lparr>p_next := p_next (?pool' ! j),
               i_status := (if expired d (?pool0 ! j) \<or> superseded d ?pool0 j
                            then DESTROYED_SUBPICTURE else i_status (?pool0 ! j))\<rparr>"
          using 4 by (simp only: sup simp_thms)
      qed
    next
      case False
      let ?pool' = "pool[e := (pool ! e)\<lparr>p_next := head_ptr l\<rparr>]"
      have 1: "vout_SortSubPictures d st = (head_ptr (e # l), st\<lparr>p_subpicture := ?pool'\<rparr>)"
        using False es
        by (simp add: vout_SortSubPictures_def st loop_state_def Some Let_def set_p_next_def
              head_ptr_def)
      have 2: "result_list d ?pool0 = e # l" by (simp add: result_list_def fin Some False)
      have sup: "\<And>j. \<not> superseded d ?pool0 j"
        using False by (auto simp: superseded_def fin Some)
      have 3: "links ?pool' (head_ptr (e # l)) (e # l)"
        by (rule links_push[OF li e(2)]) (use e(1) len in simp)
      have "slots_after d ?n ?pool0 ?pool'"
        by (rule slots_after_link[OF sl e(1)])
      then have 4: "\<forall>j < ?n. ?pool' ! j = (?pool0 ! j)\<lparr>p_next := p_next (?pool' ! j),
          i_status := (if expired d (?pool0 ! j) then DESTROYED_SUBPICTURE else i_status (?pool0 ! j))\<rparr>"
        by (simp add: slots_after_def)
      show ?thesis
      proof (intro exI[of _ ?pool'] conjI)
        show "vout_SortSubPictures d st
              = (head_ptr (result_list d ?pool0), st\<lparr>p_subpicture := ?pool'\<rparr>)"
          by (simp only: 1 2)
        show "length ?pool' = ?n" by (simp add: len)
        show "links ?pool' (head_ptr (result_list d ?pool0)) (result_list d ?pool0)"
          unfolding 2 by (rule 3)
        show "\<forall>j < ?n. ?pool' ! j = (?pool0 ! j)\<lparr>p_next := p_next (?pool' ! j),
               i_status := (if expired d (?pool0 ! j) \<or> superseded d ?pool0 j
                            then DESTROYED_SUBPICTURE else i_status (?pool0 ! j))\<rparr>"
          using 4 by (simp only: sup simp_thms)
      qed
    qed
  qed
qed

subsection \<open>The candidate and the date\<close>

lemma scan_list_candidate:
  "scan_list d pool k = (linked, cand, date) \<Longrightarrow>
     (cand = None \<longleftrightarrow> (\<forall>j<k. \<not> fresh_ephemer d (pool ! j)))
     \<and> (\<forall>e. cand = Some e \<longrightarrow>
            e < k \<and> fresh_ephemer d (pool ! e)
            \<and> (\<forall>j<k. fresh_ephemer d (pool ! j) \<longrightarrow> i_start (pool ! e) \<le> i_start (pool ! j))
            \<and> (\<forall>j<e. fresh_ephemer d (pool ! j) \<longrightarrow> i_start (pool ! e) < i_start (pool ! j)))"
proof (induction k arbitrary: linked cand date)
  case 0
  then show ?case by simp
next
  case (Suc k)
  obtain l c t where prev: "scan_list d pool k = (l, c, t)"
    by (cases "scan_list d pool k") auto
  note ih = Suc.IH[OF prev]
  from Suc.prems have step: "scan_step d pool k (l, c, t) = (linked, cand, date)"
    by (simp add: prev)
  show ?case
  proof (cases "fresh_ephemer d (pool ! k)")
    case False
    then have "cand = c"
      using step by (auto simp: scan_step_def fresh_ephemer_def split: if_splits option.splits)
    with ih False show ?thesis
      by (auto simp: less_Suc_eq)
  next
    case True
    then have fe: "i_status (pool ! k) = READY_SUBPICTURE" "i_type (pool ! k) = DVD_SUBPICTURE"
      "in_window d (pool ! k)" "b_ephemer (pool ! k)"
      by (simp_all add: fresh_ephemer_def)
    show ?thesis
    proof (cases c)
      case None
      with step fe have "cand = Some k" by (simp add: scan_step_def)
      moreover from ih None have "\<forall>j<k. \<not> fresh_ephemer d (pool ! j)" by simp
      ultimately show ?thesis using True by (auto simp: less_Suc_eq)
    next
      case (Some e)
      with ih have e: "e < k" "fresh_ephemer d (pool ! e)"
        "\<forall>j<k. fresh_ephemer d (pool ! j) \<longrightarrow> i_start (pool ! e) \<le> i_start (pool ! j)"
        "\<forall>j<e. fresh_ephemer d (pool ! j) \<longrightarrow> i_start (pool ! e) < i_start (pool ! j)"
        by auto
      show ?thesis
      proof (cases "i_start (pool ! k) < i_start (pool ! e)")
        case less: True
        with step fe Some have c: "cand = Some k" by (simp add: scan_step_def)
        have "\<forall>j<Suc k. fresh_ephemer d (pool ! j) \<longrightarrow> i_start (pool ! k) \<le> i_start (pool ! j)"
          using e(3) less by (fastforce simp: less_Suc_eq)
        moreover have "\<forall>j<k. fresh_ephemer d (pool ! j) \<longrightarrow> i_start (pool ! k) < i_start (pool ! j)"
          using e(3) less by fastforce
        ultimately show ?thesis using c True by auto
      next
        case geq: False
        with step fe Some have c: "cand = Some e" by (simp add: scan_step_def)
        have "\<forall>j<Suc k. fresh_ephemer d (pool ! j) \<longrightarrow> i_start (pool ! e) \<le> i_start (pool ! j)"
          using e(3) geq by (auto simp: less_Suc_eq)
        moreover have "\<exists>j<Suc k. fresh_ephemer d (pool ! j)"
          using e(1,2) by (intro exI[of _ e]) simp
        ultimately show ?thesis using c e by auto
      qed
    qed
  qed
qed

lemma register_start_min:
  assumes "i_start (pool ! x) \<noteq> 0" "xs = [] \<longrightarrow> t = 0"
    "xs \<noteq> [] \<longrightarrow> t = Min (starts pool xs) \<and> t \<noteq> 0"
  shows "register_start t (i_start (pool ! x)) = Min (starts pool (x # xs))"
    "register_start t (i_start (pool ! x)) \<noteq> 0"
proof -
  show "register_start t (i_start (pool ! x)) \<noteq> 0"
    using assms by (cases xs) (auto simp: register_start_def)
  show "register_start t (i_start (pool ! x)) = Min (starts pool (x # xs))"
  proof (cases xs)
    case Nil
    with assms show ?thesis by (simp add: register_start_def starts_def)
  next
    case (Cons y ys)
    with assms have t: "t = Min (starts pool xs)" "t \<noteq> 0" by auto
    have fin: "finite (starts pool xs)" "starts pool xs \<noteq> {}"
      using Cons by (simp_all add: starts_def)
    have "starts pool (x # xs) = insert (i_start (pool ! x)) (starts pool xs)"
      by (simp add: starts_def)
    then have "Min (starts pool (x # xs)) = min (i_start (pool ! x)) t"
      using fin t(1) by simp
    then show ?thesis
      using t(2) by (auto simp: register_start_def min_def)
  qed
qed

lemma scan_list_date:
  "scan_list d pool k = (linked, cand, date) \<Longrightarrow>
     (dvd_slots pool linked = [] \<longrightarrow> date = 0)
     \<and> (dvd_slots pool linked \<noteq> [] \<and> 0 \<notin> starts pool (dvd_slots pool linked) \<longrightarrow>
          date = Min (starts pool (dvd_slots pool linked)) \<and> date \<noteq> 0)"
proof (induction k arbitrary: linked cand date)
  case 0
  then show ?case by (simp add: dvd_slots_def)
next
  case (Suc k)
  obtain l c t where prev: "scan_list d pool k = (l, c, t)"
    by (cases "scan_list d pool k") auto
  note ih = Suc.IH[OF prev]
  from scan_list_members[OF prev]
  have cf: "\<forall>x. c = Some x \<longrightarrow> fresh_ephemer d (pool ! x)" by auto
  from Suc.prems have step: "scan_step d pool k (l, c, t) = (linked, cand, date)"
    by (simp add: prev)
  consider (same) "linked = l" "date = t"
    | (plain) "linked = k # l" "date = t" "i_type (pool ! k) \<noteq> DVD_SUBPICTURE"
    | (dated) x where "linked = x # l" "date = register_start t (i_start (pool ! x))"
        "i_type (pool ! x) = DVD_SUBPICTURE"
    using step cf
    by (auto simp: scan_step_def fresh_ephemer_def split: if_splits option.splits)
  then show ?case
  proof cases
    case same
    show ?thesis unfolding same by (rule ih)
  next
    case plain
    then have dv: "dvd_slots pool linked = dvd_slots pool l" by (simp add: dvd_slots_def)
    show ?thesis unfolding dv plain(2) by (rule ih)
  next
    case dated
    then have dv: "dvd_slots pool linked = x # dvd_slots pool l" by (simp add: dvd_slots_def)
    show ?thesis
    proof (cases "0 \<in> starts pool (dvd_slots pool linked)")
      case True
      then show ?thesis by (simp add: dv)
    next
      case False
      then have nz: "i_start (pool ! x) \<noteq> 0" "0 \<notin> starts pool (dvd_slots pool l)"
        by (auto simp: dv starts_def)
      from ih nz(2) have a: "dvd_slots pool l = [] \<longrightarrow> t = 0"
        "dvd_slots pool l \<noteq> [] \<longrightarrow> t = Min (starts pool (dvd_slots pool l)) \<and> t \<noteq> 0"
        by auto
      from register_start_min[OF nz(1) a]
      show ?thesis unfolding dv dated(2) by simp
    qed
  qed
qed

subsection \<open>The returned list\<close>

lemma result_list_members:
  "j \<in> set (result_list d pool) \<longleftrightarrow>
     j < length pool \<and> shown d (pool ! j) \<and> \<not> superseded d pool j"
proof -
  obtain l c t where fin: "scan_list d pool (length pool) = (l, c, t)"
    by (cases "scan_list d pool (length pool)") auto
  from scan_list_members[OF fin]
  have mem: "j \<in> set l \<or> c = Some j \<longleftrightarrow> j < length pool \<and> shown d (pool ! j)" by blast
  from scan_list_bounds[OF fin] have cb: "\<forall>x. c = Some x \<longrightarrow> x \<notin> set l" by auto
  show ?thesis
  proof (cases c)
    case None
    with mem show ?thesis by (simp add: result_list_def superseded_def fin)
  next
    case (Some e)
    with cb have "e \<notin> set l" by simp
    with mem Some show ?thesis
      by (auto simp: result_list_def superseded_def fin)
  qed
qed

lemma result_list_length: "length (result_list d pool) \<le> length pool"
proof -
  obtain l c t where fin: "scan_list d pool (length pool) = (l, c, t)"
    by (cases "scan_list d pool (length pool)") auto
  from scan_list_bounds[OF fin]
  have b: "\<forall>x \<in> set l. x < length pool" "distinct l"
    "\<forall>x. c = Some x \<longrightarrow> x < length pool \<and> x \<notin> set l" by auto
  have "distinct (result_list d pool) \<and> (\<forall>x \<in> set (result_list d pool). x < length pool)"
    using b by (cases c) (auto simp: result_list_def fin)
  then show ?thesis by (simp add: distinct_bounded_length)
qed

lemma superseded_source:
  "superseded d (p_subpicture st) j \<longleftrightarrow>
     p_ephemer (sort_scan d st) = Some j \<and> i_start (p_subpicture st ! j) < ephemer_date (sort_scan d st)"
proof -
  obtain l c t where fin: "scan_list d (p_subpicture st) (length (p_subpicture st)) = (l, c, t)"
    by (cases "scan_list d (p_subpicture st) (length (p_subpicture st))") auto
  from scan_refines[of "length (p_subpicture st)" st d] fin obtain pool where
    "sort_scan d st = loop_state st pool (l, c, t)"
    by (auto simp: sort_scan_upto)
  then show ?thesis by (simp add: superseded_def fin loop_state_def)
qed

lemma candidate_is_ephemer:
  "p_ephemer (sort_scan d st) = Some j \<Longrightarrow> fresh_ephemer d (p_subpicture st ! j)"
proof -
  obtain l c t where fin: "scan_list d (p_subpicture st) (length (p_subpicture st)) = (l, c, t)"
    by (cases "scan_list d (p_subpicture st) (length (p_subpicture st))") auto
  from scan_refines[of "length (p_subpicture st)" st d] fin obtain pool where
    "sort_scan d st = loop_state st pool (l, c, t)"
    by (auto simp: sort_scan_upto)
  then have "p_ephemer (sort_scan d st) = c" by (simp add: loop_state_def)
  with scan_list_members[OF fin] show "p_ephemer (sort_scan d st) = Some j \<Longrightarrow> ?thesis"
    by auto
qed

text \<open>What a call returns and what it leaves in a slot.\<close>

lemma sort_outcome:
  assumes "j < length (p_subpicture st)"
  shows "subpic_list (p_subpicture (snd (vout_SortSubPictures d st))) (length (p_subpicture st))
           (fst (vout_SortSubPictures d st)) = Some (result_list d (p_subpicture st))"
    and "i_status (p_subpicture (snd (vout_SortSubPictures d st)) ! j) =
           (if expired d (p_subpicture st ! j) \<or> superseded d (p_subpicture st) j
            then DESTROYED_SUBPICTURE else i_status (p_subpicture st ! j))"
proof -
  from sort_result[of d st] obtain pool' where
    r: "vout_SortSubPictures d st
          = (head_ptr (result_list d (p_subpicture st)), st\<lparr>p_subpicture := pool'\<rparr>)"
    and li: "links pool' (head_ptr (result_list d (p_subpicture st))) (result_list d (p_subpicture st))"
    and sl: "\<forall>j < length (p_subpicture st).
            pool' ! j = (p_subpicture st ! j)\<lparr>p_next := p_next (pool' ! j),
               i_status := (if expired d (p_subpicture st ! j) \<or> superseded d (p_subpicture st) j
                            then DESTROYED_SUBPICTURE else i_status (p_subpicture st ! j))\<rparr>"
    by blast
  show "subpic_list (p_subpicture (snd (vout_SortSubPictures d st))) (length (p_subpicture st))
           (fst (vout_SortSubPictures d st)) = Some (result_list d (p_subpicture st))"
    using links_subpic_list[OF li result_list_length] by (simp add: r)
  from sl assms have eq: "pool' ! j = (p_subpicture st ! j)\<lparr>p_next := p_next (pool' ! j),
               i_status := (if expired d (p_subpicture st ! j) \<or> superseded d (p_subpicture st) j
                            then DESTROYED_SUBPICTURE else i_status (p_subpicture st ! j))\<rparr>"
    by simp
  have "i_status (pool' ! j) = (if expired d (p_subpicture st ! j) \<or> superseded d (p_subpicture st) j
                            then DESTROYED_SUBPICTURE else i_status (p_subpicture st ! j))"
    by (subst eq) simp
  then show "i_status (p_subpicture (snd (vout_SortSubPictures d st)) ! j) =
           (if expired d (p_subpicture st ! j) \<or> superseded d (p_subpicture st) j
            then DESTROYED_SUBPICTURE else i_status (p_subpicture st ! j))"
    by (simp add: r)
qed

subsection \<open>Claims about the selection\<close>

text \<open>
  The spec has a subpicture that is in its window never destroyed. An ephemer one is:
  at the date 20, its own stop date, the first slot is the candidate, the second one
  started later, and the call destroys the first.
\<close>

theorem expiry_counterexample:
  "i_status (pool_cutoff ! 0) = READY_SUBPICTURE \<and> i_type (pool_cutoff ! 0) = DVD_SUBPICTURE
   \<and> i_stop (pool_cutoff ! 0) = 20
   \<and> i_start (pool_cutoff ! 0) \<le> 20
   \<and> i_status (p_subpicture (snd (vout_SortSubPictures 20 (vout0 pool_cutoff))) ! 0)
       = DESTROYED_SUBPICTURE"
  by code_simp

text \<open>
  C3 (amended). Take a ready DVD subpicture and any call. The call returns a list. When
  the date is after the stop date, the subpicture is destroyed by the call and is not in
  the list. When the date is before the start date, it stays ready and is not in the
  list. When the date is in the window, both ends included, the date tests keep it: it
  stays ready and is in the list, unless it ends the scan as the candidate with a start
  before the registered date; then the call destroys it and it is not in the list. Only
  an ephemer subpicture is ever the candidate.
\<close>

theorem expiry_and_window:
  assumes "j < length (p_subpicture st)"
    and "i_status (p_subpicture st ! j) = READY_SUBPICTURE"
    and "i_type (p_subpicture st ! j) = DVD_SUBPICTURE"
  shows "\<exists>shown_list.
     subpic_list (p_subpicture (snd (vout_SortSubPictures d st))) (length (p_subpicture st))
       (fst (vout_SortSubPictures d st)) = Some shown_list
     \<and> (d > i_stop (p_subpicture st ! j) \<longrightarrow>
          i_status (p_subpicture (snd (vout_SortSubPictures d st)) ! j) = DESTROYED_SUBPICTURE
          \<and> j \<notin> set shown_list)
     \<and> (d \<le> i_stop (p_subpicture st ! j) \<and> d < i_start (p_subpicture st ! j) \<longrightarrow>
          i_status (p_subpicture (snd (vout_SortSubPictures d st)) ! j) = READY_SUBPICTURE
          \<and> j \<notin> set shown_list)
     \<and> (i_start (p_subpicture st ! j) \<le> d \<and> d \<le> i_stop (p_subpicture st ! j) \<longrightarrow>
          (if p_ephemer (sort_scan d st) = Some j
              \<and> i_start (p_subpicture st ! j) < ephemer_date (sort_scan d st)
           then i_status (p_subpicture (snd (vout_SortSubPictures d st)) ! j) = DESTROYED_SUBPICTURE
                \<and> j \<notin> set shown_list
           else i_status (p_subpicture (snd (vout_SortSubPictures d st)) ! j) = READY_SUBPICTURE
                \<and> j \<in> set shown_list))
     \<and> (p_ephemer (sort_scan d st) = Some j \<longrightarrow> b_ephemer (p_subpicture st ! j))"
proof -
  let ?pool0 = "p_subpicture st"
  let ?R = "result_list d ?pool0"
  note out = sort_outcome[OF assms(1), of d]
  note mem = result_list_members[of j d ?pool0]
  note sup = superseded_source[of d st j]
  have sup_fresh: "superseded d ?pool0 j \<Longrightarrow> in_window d (?pool0 ! j)"
    using candidate_is_ephemer[of d st j] by (simp add: sup fresh_ephemer_def)
  have late: "i_status (p_subpicture (snd (vout_SortSubPictures d st)) ! j) = DESTROYED_SUBPICTURE
              \<and> j \<notin> set ?R" if "d > i_stop (?pool0 ! j)"
  proof -
    from that assms have "expired d (?pool0 ! j)" "\<not> shown d (?pool0 ! j)"
      by (simp_all add: expired_def shown_def in_window_def)
    then show ?thesis by (simp add: out(2) mem)
  qed
  have early: "i_status (p_subpicture (snd (vout_SortSubPictures d st)) ! j) = READY_SUBPICTURE
              \<and> j \<notin> set ?R" if "d \<le> i_stop (?pool0 ! j) \<and> d < i_start (?pool0 ! j)"
  proof -
    from that assms have "\<not> expired d (?pool0 ! j)" "\<not> shown d (?pool0 ! j)"
      "\<not> in_window d (?pool0 ! j)"
      by (simp_all add: expired_def shown_def in_window_def)
    with sup_fresh have "\<not> expired d (?pool0 ! j)" "\<not> shown d (?pool0 ! j)"
      "\<not> superseded d ?pool0 j" by auto
    then show ?thesis using assms(2) by (simp add: out(2) mem)
  qed
  have inside: "if p_ephemer (sort_scan d st) = Some j
              \<and> i_start (?pool0 ! j) < ephemer_date (sort_scan d st)
           then i_status (p_subpicture (snd (vout_SortSubPictures d st)) ! j) = DESTROYED_SUBPICTURE
                \<and> j \<notin> set ?R
           else i_status (p_subpicture (snd (vout_SortSubPictures d st)) ! j) = READY_SUBPICTURE
                \<and> j \<in> set ?R"
    if "i_start (?pool0 ! j) \<le> d \<and> d \<le> i_stop (?pool0 ! j)"
  proof -
    from that assms have "\<not> expired d (?pool0 ! j)" "shown d (?pool0 ! j)"
      by (simp_all add: expired_def shown_def in_window_def)
    then show ?thesis
      using assms(1,2) by (simp add: out(2) mem flip: sup)
  qed
  have eph: "p_ephemer (sort_scan d st) = Some j \<longrightarrow> b_ephemer (?pool0 ! j)"
    using candidate_is_ephemer[of d st j] by (simp add: fresh_ephemer_def)
  show ?thesis
    by (rule exI[of _ ?R]) (use out(1) late early inside eph in blast)
qed

theorem expiry_and_window_witness:
  "0 < length (p_subpicture (vout0 pool_cutoff))
   \<and> i_status (p_subpicture (vout0 pool_cutoff) ! 0) = READY_SUBPICTURE
   \<and> i_type (p_subpicture (vout0 pool_cutoff) ! 0) = DVD_SUBPICTURE
   \<and> i_start (p_subpicture (vout0 pool_cutoff) ! 0) = 10
   \<and> i_stop (p_subpicture (vout0 pool_cutoff) ! 0) = 20
   \<and> subpic_list (p_subpicture (snd (vout_SortSubPictures 21 (vout0 pool_cutoff)))) 2
       (fst (vout_SortSubPictures 21 (vout0 pool_cutoff))) = Some [1]
   \<and> i_status (p_subpicture (snd (vout_SortSubPictures 21 (vout0 pool_cutoff))) ! 0)
       = DESTROYED_SUBPICTURE
   \<and> subpic_list (p_subpicture (snd (vout_SortSubPictures 9 (vout0 pool_cutoff)))) 2
       (fst (vout_SortSubPictures 9 (vout0 pool_cutoff))) = Some []
   \<and> i_status (p_subpicture (snd (vout_SortSubPictures 9 (vout0 pool_cutoff))) ! 0)
       = READY_SUBPICTURE
   \<and> p_ephemer (sort_scan 12 (vout0 pool_cutoff)) = Some 0
   \<and> ephemer_date (sort_scan 12 (vout0 pool_cutoff)) = 0
   \<and> subpic_list (p_subpicture (snd (vout_SortSubPictures 12 (vout0 pool_cutoff)))) 2
       (fst (vout_SortSubPictures 12 (vout0 pool_cutoff))) = Some [0]
   \<and> i_status (p_subpicture (snd (vout_SortSubPictures 12 (vout0 pool_cutoff))) ! 0)
       = READY_SUBPICTURE
   \<and> b_ephemer (p_subpicture (vout0 pool_cutoff) ! 0)"
proof -
  let ?st = "vout0 pool_cutoff"
  have h: "0 < length (p_subpicture ?st)"
    "i_status (p_subpicture ?st ! 0) = READY_SUBPICTURE"
    "i_type (p_subpicture ?st ! 0) = DVD_SUBPICTURE"
    by code_simp+
  have v: "i_start (p_subpicture ?st ! 0) = 10" "i_stop (p_subpicture ?st ! 0) = 20"
    "length (p_subpicture ?st) = 2"
    by code_simp+
  have l: "subpic_list (p_subpicture (snd (vout_SortSubPictures 21 ?st))) 2
             (fst (vout_SortSubPictures 21 ?st)) = Some [1]"
    "subpic_list (p_subpicture (snd (vout_SortSubPictures 9 ?st))) 2
             (fst (vout_SortSubPictures 9 ?st)) = Some []"
    "subpic_list (p_subpicture (snd (vout_SortSubPictures 12 ?st))) 2
             (fst (vout_SortSubPictures 12 ?st)) = Some [0]"
    by code_simp+
  have c: "p_ephemer (sort_scan 12 ?st) = Some 0" "ephemer_date (sort_scan 12 ?st) = 0"
    by code_simp+
  from expiry_and_window[OF h, of 21] v
  have late: "i_status (p_subpicture (snd (vout_SortSubPictures 21 ?st)) ! 0) = DESTROYED_SUBPICTURE"
    by auto
  from expiry_and_window[OF h, of 9] v
  have early: "i_status (p_subpicture (snd (vout_SortSubPictures 9 ?st)) ! 0) = READY_SUBPICTURE"
    by auto
  from expiry_and_window[OF h, of 12] v c
  have inside: "i_status (p_subpicture (snd (vout_SortSubPictures 12 ?st)) ! 0) = READY_SUBPICTURE"
    and eph: "b_ephemer (p_subpicture ?st ! 0)"
    by auto
  from h v l c late early inside eph show ?thesis by simp
qed

lemma candidate_upto:
  assumes "k \<le> length (p_subpicture st)"
  shows "p_ephemer (scan_upto d st k) = fst (snd (scan_list d (p_subpicture st) k))"
proof -
  from scan_refines[OF assms, of d] obtain pool where
    "scan_upto d st k = loop_state st pool (scan_list d (p_subpicture st) k)" by blast
  then show ?thesis
    by (cases "scan_list d (p_subpicture st) k") (simp add: loop_state_def)
qed

lemma demotion_step:
  assumes k: "k < length (p_subpicture st)"
    and c: "p_ephemer (scan_upto d st k) = Some e"
    and f: "fresh_ephemer d (p_subpicture st ! k)"
    and lt: "i_start (p_subpicture st ! k) < i_start (p_subpicture st ! e)"
  shows "p_ephemer (scan_upto d st (Suc k)) = Some k"
    and "p_subpic (scan_upto d st (Suc k)) = Some e"
    and "p_next (p_subpicture (p_vout (scan_upto d st (Suc k))) ! e) = p_subpic (scan_upto d st k)"
    and "i_status (p_subpicture (p_vout (scan_upto d st (Suc k))) ! e) = READY_SUBPICTURE"
proof -
  let ?pool0 = "p_subpicture st"
  obtain l c' t where prev: "scan_list d ?pool0 k = (l, c', t)"
    by (cases "scan_list d ?pool0 k") auto
  from k have kle: "k \<le> length ?pool0" by simp
  from scan_refines[OF kle, of d] prev obtain pool where
    s: "scan_upto d st k = loop_state st pool (l, c', t)"
    and sl: "slots_after d k ?pool0 pool"
    and li: "links pool (head_ptr l) l"
    by auto
  from s c have c': "c' = Some e" by (simp add: loop_state_def)
  from scan_list_bounds[OF prev]
  have lb: "\<forall>x \<in> set l. x < k" and cb: "\<forall>x. c' = Some x \<longrightarrow> x < k \<and> x \<notin> set l"
    by auto
  from scan_list_members[OF prev] c' have fe: "fresh_ephemer d (?pool0 ! e)" by auto
  from cb c' have ek: "e < k" by simp
  have step: "scan_step d ?pool0 k (l, c', t)
                = (e # l, Some k, register_start t (i_start (?pool0 ! e)))"
    using f lt c' by (simp add: scan_step_def fresh_ephemer_def)
  from sort_body_step[OF k sl li lb cb, of st t] obtain pool' where
    s': "scan_upto d st (Suc k)
          = loop_state st pool' (e # l, Some k, register_start t (i_start (?pool0 ! e)))"
    and sl': "slots_after d (Suc k) ?pool0 pool'"
    and li': "links pool' (head_ptr (e # l)) (e # l)"
    by (auto simp: scan_upto_Suc s step)
  show "p_ephemer (scan_upto d st (Suc k)) = Some k"
    by (simp add: s' loop_state_def)
  show "p_subpic (scan_upto d st (Suc k)) = Some e"
    by (simp add: s' loop_state_def head_ptr_def)
  from li' have "links pool' (p_next (pool' ! e)) l" by simp
  then have "p_next (pool' ! e) = head_ptr l"
    using head_of_links[of pool' "p_next (pool' ! e)" l] by (simp add: head_ptr_def)
  then show "p_next (p_subpicture (p_vout (scan_upto d st (Suc k))) ! e) = p_subpic (scan_upto d st k)"
    by (simp add: s' s loop_state_def)
  from ek k have elen: "e < length ?pool0" by simp
  from fe have "\<not> expired d (?pool0 ! e)" "i_status (?pool0 ! e) = READY_SUBPICTURE"
    by (simp_all add: fresh_ephemer_def expired_def in_window_def)
  with slots_after_fields(5)[OF sl' elen]
  show "i_status (p_subpicture (p_vout (scan_upto d st (Suc k))) ! e) = READY_SUBPICTURE"
    by (simp add: s' loop_state_def)
qed

text \<open>
  The spec keeps the overlay with the latest start and destroys A and C. In slots A, B,
  C the candidate after A and B is A, the call returns the list C, B, and C and B stay
  ready; only A is destroyed.
\<close>

theorem ephemer_counterexample:
  "map i_start pool_abc = [10, 20, 15]
   \<and> p_ephemer (scan_upto 20 (vout0 pool_abc) 2) = Some 0
   \<and> fst (vout_SortSubPictures 20 (vout0 pool_abc)) = Some 2
   \<and> subpic_list (p_subpicture (snd (vout_SortSubPictures 20 (vout0 pool_abc)))) 3
        (fst (vout_SortSubPictures 20 (vout0 pool_abc))) = Some [2, 1]
   \<and> map i_status (p_subpicture (snd (vout_SortSubPictures 20 (vout0 pool_abc))))
        = [DESTROYED_SUBPICTURE, READY_SUBPICTURE, READY_SUBPICTURE]
   \<and> p_ephemer (scan_upto 20 (vout0 pool_abc) 2) \<noteq> Some 1
   \<and> i_status (p_subpicture (snd (vout_SortSubPictures 20 (vout0 pool_abc))) ! 2)
        \<noteq> DESTROYED_SUBPICTURE"
  by code_simp

text \<open>
  C1 (amended). Among the ephemer DVD subpictures that are ready and in their window, the
  candidate kept during the scan is the one with the earliest start seen so far, the
  first one seen among equals. A slot with an earlier start takes the place of the
  candidate; the former candidate is then linked at the head of the list and stays ready.
  With A, B and C starting at 10, 20 and 15, in the slots A, B, C or B, A, C, the call
  destroys A and returns the list C, B, both still ready.
\<close>

theorem ephemer_candidate_is_earliest:
  assumes "k \<le> length (p_subpicture st)"
  shows "(p_ephemer (scan_upto d st k) = None \<longleftrightarrow>
            (\<forall>j<k. \<not> fresh_ephemer d (p_subpicture st ! j)))
     \<and> (\<forall>e. p_ephemer (scan_upto d st k) = Some e \<longrightarrow>
          e < k \<and> fresh_ephemer d (p_subpicture st ! e)
          \<and> (\<forall>j<k. fresh_ephemer d (p_subpicture st ! j) \<longrightarrow>
                 i_start (p_subpicture st ! e) \<le> i_start (p_subpicture st ! j))
          \<and> (\<forall>j<e. fresh_ephemer d (p_subpicture st ! j) \<longrightarrow>
                 i_start (p_subpicture st ! e) < i_start (p_subpicture st ! j)))
     \<and> (\<forall>e. k < length (p_subpicture st) \<and> p_ephemer (scan_upto d st k) = Some e
            \<and> fresh_ephemer d (p_subpicture st ! k)
            \<and> i_start (p_subpicture st ! k) < i_start (p_subpicture st ! e) \<longrightarrow>
          p_ephemer (scan_upto d st (Suc k)) = Some k
          \<and> p_subpic (scan_upto d st (Suc k)) = Some e
          \<and> p_next (p_subpicture (p_vout (scan_upto d st (Suc k))) ! e)
              = p_subpic (scan_upto d st k)
          \<and> i_status (p_subpicture (p_vout (scan_upto d st (Suc k))) ! e) = READY_SUBPICTURE)
     \<and> subpic_list (p_subpicture (snd (vout_SortSubPictures 20 (vout0 pool_abc)))) 3
          (fst (vout_SortSubPictures 20 (vout0 pool_abc))) = Some [2, 1]
     \<and> map i_status (p_subpicture (snd (vout_SortSubPictures 20 (vout0 pool_abc))))
          = [DESTROYED_SUBPICTURE, READY_SUBPICTURE, READY_SUBPICTURE]
     \<and> subpic_list (p_subpicture (snd (vout_SortSubPictures 20 (vout0 pool_bac)))) 3
          (fst (vout_SortSubPictures 20 (vout0 pool_bac))) = Some [2, 0]
     \<and> map i_status (p_subpicture (snd (vout_SortSubPictures 20 (vout0 pool_bac))))
          = [READY_SUBPICTURE, DESTROYED_SUBPICTURE, READY_SUBPICTURE]"
proof -
  obtain l c t where prev: "scan_list d (p_subpicture st) k = (l, c, t)"
    by (cases "scan_list d (p_subpicture st) k") auto
  have c: "p_ephemer (scan_upto d st k) = c"
    by (simp add: candidate_upto[OF assms] prev)
  note cand = scan_list_candidate[OF prev, folded c]
  have demote: "\<forall>e. k < length (p_subpicture st) \<and> p_ephemer (scan_upto d st k) = Some e
            \<and> fresh_ephemer d (p_subpicture st ! k)
            \<and> i_start (p_subpicture st ! k) < i_start (p_subpicture st ! e) \<longrightarrow>
          p_ephemer (scan_upto d st (Suc k)) = Some k
          \<and> p_subpic (scan_upto d st (Suc k)) = Some e
          \<and> p_next (p_subpicture (p_vout (scan_upto d st (Suc k))) ! e)
              = p_subpic (scan_upto d st k)
          \<and> i_status (p_subpicture (p_vout (scan_upto d st (Suc k))) ! e) = READY_SUBPICTURE"
    using demotion_step[of k st d] by blast
  have abc: "subpic_list (p_subpicture (snd (vout_SortSubPictures 20 (vout0 pool_abc)))) 3
          (fst (vout_SortSubPictures 20 (vout0 pool_abc))) = Some [2, 1]"
    "map i_status (p_subpicture (snd (vout_SortSubPictures 20 (vout0 pool_abc))))
          = [DESTROYED_SUBPICTURE, READY_SUBPICTURE, READY_SUBPICTURE]"
    by code_simp+
  have bac: "subpic_list (p_subpicture (snd (vout_SortSubPictures 20 (vout0 pool_bac)))) 3
          (fst (vout_SortSubPictures 20 (vout0 pool_bac))) = Some [2, 0]"
    "map i_status (p_subpicture (snd (vout_SortSubPictures 20 (vout0 pool_bac))))
          = [READY_SUBPICTURE, DESTROYED_SUBPICTURE, READY_SUBPICTURE]"
    by code_simp+
  from cand demote abc bac show ?thesis by blast
qed

theorem ephemer_candidate_is_earliest_witness:
  "1 \<le> length (p_subpicture (vout0 pool_bac))
   \<and> 1 < length (p_subpicture (vout0 pool_bac))
   \<and> p_ephemer (scan_upto 20 (vout0 pool_bac) 1) = Some 0
   \<and> fresh_ephemer 20 (p_subpicture (vout0 pool_bac) ! 1)
   \<and> i_start (p_subpicture (vout0 pool_bac) ! 1) = 10
   \<and> i_start (p_subpicture (vout0 pool_bac) ! 0) = 20
   \<and> p_ephemer (scan_upto 20 (vout0 pool_bac) (Suc 1)) = Some 1
   \<and> p_subpic (scan_upto 20 (vout0 pool_bac) (Suc 1)) = Some 0
   \<and> i_status (p_subpicture (p_vout (scan_upto 20 (vout0 pool_bac) (Suc 1))) ! 0)
       = READY_SUBPICTURE"
proof -
  have h: "1 \<le> length (p_subpicture (vout0 pool_bac))" by code_simp
  have p: "1 < length (p_subpicture (vout0 pool_bac))"
    "p_ephemer (scan_upto 20 (vout0 pool_bac) 1) = Some 0"
    "fresh_ephemer 20 (p_subpicture (vout0 pool_bac) ! 1)"
    by code_simp+
  have v: "i_start (p_subpicture (vout0 pool_bac) ! 1) = 10"
    "i_start (p_subpicture (vout0 pool_bac) ! 0) = 20"
    by code_simp+
  from v have lt: "i_start (p_subpicture (vout0 pool_bac) ! 1)
                   < i_start (p_subpicture (vout0 pool_bac) ! 0)" by simp
  from ephemer_candidate_is_earliest[OF h, of 20] p lt
  have "p_ephemer (scan_upto 20 (vout0 pool_bac) (Suc 1)) = Some 1
   \<and> p_subpic (scan_upto 20 (vout0 pool_bac) (Suc 1)) = Some 0
   \<and> i_status (p_subpicture (p_vout (scan_upto 20 (vout0 pool_bac) (Suc 1))) ! 0)
       = READY_SUBPICTURE"
    by blast
  with h p v show ?thesis by blast
qed

lemma dvd_slots_after:
  assumes "slots_after d k pool0 pool" "\<forall>x \<in> set xs. x < length pool0"
  shows "dvd_slots pool xs = dvd_slots pool0 xs"
  unfolding dvd_slots_def
  by (rule filter_cong) (use assms slots_after_fields(3)[OF assms(1)] in auto)

lemma starts_after:
  assumes "slots_after d k pool0 pool" "\<forall>x \<in> set xs. x < length pool0"
  shows "starts pool xs = starts pool0 xs"
proof -
  have "map (\<lambda>j. i_start (pool ! j)) xs = map (\<lambda>j. i_start (pool0 ! j)) xs"
    by (rule map_cong) (use assms slots_after_fields(1)[OF assms(1)] in auto)
  then show ?thesis by (simp add: starts_def)
qed

lemma set_dvd_slots: "set (dvd_slots pool xs) \<subseteq> set xs"
  by (auto simp: dvd_slots_def)

text \<open>
  The spec has the registered date be the earliest start of the slots of the list. In
  the first array the two slots of the list start at 0 and 5 and the date is 5: the
  source takes a date of 0 for no date. In the second one the list holds a text
  subpicture that starts at 1 and a DVD one that starts at 5, and the date is 5: only
  DVD subpictures register their start.
\<close>

theorem ephemer_date_counterexample:
  "subpic_list (p_subpicture (p_vout (sort_scan 5 (vout0 pool_zero)))) 2
      (p_subpic (sort_scan 5 (vout0 pool_zero))) = Some [1, 0]
   \<and> map i_start (p_subpicture (p_vout (sort_scan 5 (vout0 pool_zero)))) = [0, 5]
   \<and> ephemer_date (sort_scan 5 (vout0 pool_zero)) = 5
   \<and> subpic_list (p_subpicture (p_vout (sort_scan 5 (vout0 pool_text)))) 2
      (p_subpic (sort_scan 5 (vout0 pool_text))) = Some [1, 0]
   \<and> map i_start (p_subpicture (p_vout (sort_scan 5 (vout0 pool_text)))) = [1, 5]
   \<and> ephemer_date (sort_scan 5 (vout0 pool_text)) = 5
   \<and> ephemer_date (sort_scan 5 (vout0 pool_zero))
        \<noteq> Min (starts (p_subpicture (p_vout (sort_scan 5 (vout0 pool_zero)))) [1, 0])
   \<and> ephemer_date (sort_scan 5 (vout0 pool_text))
        \<noteq> Min (starts (p_subpicture (p_vout (sort_scan 5 (vout0 pool_text)))) [1, 0])"
  by code_simp

text \<open>
  C2 (amended). After the scan the list of the linked slots is laid out from
  \<open>p_subpic\<close>. The registered date is 0 when no DVD subpicture is in it; when some are
  and none of them starts at 0, it is the earliest start among the DVD subpictures of the
  list, the former candidates included. A candidate that starts before the registered
  date is destroyed and the list is returned without it; any other candidate stays ready
  and is returned at the head of the list.
\<close>

theorem ephemer_date_and_candidate:
  "\<exists>linked.
     subpic_list (p_subpicture (p_vout (sort_scan d st))) (length (p_subpicture st))
       (p_subpic (sort_scan d st)) = Some linked
     \<and> (dvd_slots (p_subpicture (p_vout (sort_scan d st))) linked = [] \<longrightarrow>
          ephemer_date (sort_scan d st) = 0)
     \<and> (dvd_slots (p_subpicture (p_vout (sort_scan d st))) linked \<noteq> []
          \<and> 0 \<notin> starts (p_subpicture (p_vout (sort_scan d st)))
                  (dvd_slots (p_subpicture (p_vout (sort_scan d st))) linked) \<longrightarrow>
          ephemer_date (sort_scan d st)
            = Min (starts (p_subpicture (p_vout (sort_scan d st)))
                     (dvd_slots (p_subpicture (p_vout (sort_scan d st))) linked)))
     \<and> (p_ephemer (sort_scan d st) = None \<longrightarrow>
          vout_SortSubPictures d st = (p_subpic (sort_scan d st), p_vout (sort_scan d st)))
     \<and> (\<forall>e. p_ephemer (sort_scan d st) = Some e \<longrightarrow>
          (if i_start (p_subpicture (p_vout (sort_scan d st)) ! e) < ephemer_date (sort_scan d st)
           then i_status (p_subpicture (snd (vout_SortSubPictures d st)) ! e) = DESTROYED_SUBPICTURE
                \<and> e \<notin> set linked
                \<and> subpic_list (p_subpicture (snd (vout_SortSubPictures d st)))
                      (length (p_subpicture st)) (fst (vout_SortSubPictures d st)) = Some linked
           else i_status (p_subpicture (snd (vout_SortSubPictures d st)) ! e) = READY_SUBPICTURE
                \<and> fst (vout_SortSubPictures d st) = Some e
                \<and> subpic_list (p_subpicture (snd (vout_SortSubPictures d st)))
                      (length (p_subpicture st)) (fst (vout_SortSubPictures d st))
                    = Some (e # linked)))"
proof -
  let ?pool0 = "p_subpicture st"
  let ?n = "length ?pool0"
  let ?s = "sort_scan d st"
  obtain l c t where fin: "scan_list d ?pool0 ?n = (l, c, t)"
    by (cases "scan_list d ?pool0 ?n") auto
  from scan_refines[of ?n st d] fin obtain pool where
    s: "?s = loop_state st pool (l, c, t)"
    and sl: "slots_after d ?n ?pool0 pool"
    and li: "links pool (head_ptr l) l"
    by (auto simp: sort_scan_upto)
  have sp: "p_subpicture (p_vout ?s) = pool" "p_subpic ?s = head_ptr l" "p_ephemer ?s = c"
    "ephemer_date ?s = t" "p_vout ?s = st\<lparr>p_subpicture := pool\<rparr>"
    by (simp_all add: s loop_state_def)
  from scan_list_bounds[OF fin]
  have lb: "\<forall>x \<in> set l. x < ?n" and dl: "distinct l"
    and cb: "\<forall>x. c = Some x \<longrightarrow> x < ?n \<and> x \<notin> set l" by auto
  from scan_list_members[OF fin]
  have cf: "\<forall>x. c = Some x \<longrightarrow> fresh_ephemer d (?pool0 ! x)" by auto
  have len: "length l \<le> ?n" by (rule distinct_bounded_length[OF dl lb])
  have walk: "subpic_list pool ?n (head_ptr l) = Some l"
    by (rule links_subpic_list[OF li len])
  have dv: "dvd_slots pool l = dvd_slots ?pool0 l"
    by (rule dvd_slots_after[OF sl lb])
  have "\<forall>x \<in> set (dvd_slots ?pool0 l). x < ?n"
    using lb set_dvd_slots[of ?pool0 l] by auto
  then have stt: "starts pool (dvd_slots ?pool0 l) = starts ?pool0 (dvd_slots ?pool0 l)"
    by (rule starts_after[OF sl])
  note date = scan_list_date[OF fin]
  have 1: "dvd_slots pool l = [] \<longrightarrow> t = 0"
    using date by (simp add: dv)
  have 2: "dvd_slots pool l \<noteq> [] \<and> 0 \<notin> starts pool (dvd_slots pool l) \<longrightarrow>
             t = Min (starts pool (dvd_slots pool l))"
    using date by (simp add: dv stt)
  have 3: "c = None \<longrightarrow> vout_SortSubPictures d st = (head_ptr l, st\<lparr>p_subpicture := pool\<rparr>)"
    by (simp add: vout_SortSubPictures_def s loop_state_def Let_def)
  have 4: "if i_start (pool ! e) < t
           then i_status (p_subpicture (snd (vout_SortSubPictures d st)) ! e) = DESTROYED_SUBPICTURE
                \<and> e \<notin> set l
                \<and> subpic_list (p_subpicture (snd (vout_SortSubPictures d st))) ?n
                      (fst (vout_SortSubPictures d st)) = Some l
           else i_status (p_subpicture (snd (vout_SortSubPictures d st)) ! e) = READY_SUBPICTURE
                \<and> fst (vout_SortSubPictures d st) = Some e
                \<and> subpic_list (p_subpicture (snd (vout_SortSubPictures d st))) ?n
                      (fst (vout_SortSubPictures d st)) = Some (e # l)"
    if ce: "c = Some e" for e
  proof -
    from ce cb cf have e: "e < ?n" "e \<notin> set l" "fresh_ephemer d (?pool0 ! e)" by auto
    then have ne: "\<not> expired d (?pool0 ! e)" "i_status (?pool0 ! e) = READY_SUBPICTURE"
      by (simp_all add: fresh_ephemer_def expired_def in_window_def)
    have es: "i_start (pool ! e) = i_start (?pool0 ! e)"
      by (rule slots_after_fields(1)[OF sl e(1)])
    note out = sort_outcome[OF e(1), of d]
    have sup: "superseded d ?pool0 e \<longleftrightarrow> i_start (?pool0 ! e) < t"
      by (simp add: superseded_def fin ce)
    have rl: "result_list d ?pool0 = (if i_start (?pool0 ! e) < t then l else e # l)"
      by (simp add: result_list_def fin ce)
    from sort_result[of d st]
    have hd: "fst (vout_SortSubPictures d st) = head_ptr (result_list d ?pool0)"
      by auto
    show ?thesis
    proof (cases "i_start (?pool0 ! e) < t")
      case True
      then have c1: "i_start (pool ! e) < t" by (simp add: es)
      have w: "subpic_list (p_subpicture (snd (vout_SortSubPictures d st))) ?n
                 (fst (vout_SortSubPictures d st)) = Some l"
        using True by (simp add: out(1) rl)
      have x: "i_status (p_subpicture (snd (vout_SortSubPictures d st)) ! e) = DESTROYED_SUBPICTURE"
        using True by (simp add: out(2) sup)
      show ?thesis
        unfolding if_P[OF c1] by (intro conjI) (fact x, fact e(2), fact w)
    next
      case False
      then have c2: "\<not> i_start (pool ! e) < t" by (simp add: es)
      from False have fe: "fst (vout_SortSubPictures d st) = Some e"
        by (simp add: hd rl head_ptr_def)
      have w: "subpic_list (p_subpicture (snd (vout_SortSubPictures d st))) ?n
                 (fst (vout_SortSubPictures d st)) = Some (e # l)"
        using False by (simp add: out(1) rl)
      have x: "i_status (p_subpicture (snd (vout_SortSubPictures d st)) ! e) = READY_SUBPICTURE"
        using False ne by (simp add: out(2) sup)
      show ?thesis
        unfolding if_not_P[OF c2] by (intro conjI) (fact x, fact fe, fact w)
    qed
  qed
  have a0: "subpic_list (p_subpicture (p_vout ?s)) ?n (p_subpic ?s) = Some l"
    using walk by (simp add: sp(1,2))
  have a1: "dvd_slots (p_subpicture (p_vout ?s)) l = [] \<longrightarrow> ephemer_date ?s = 0"
    using 1 by (simp add: sp(1,4))
  have a2: "dvd_slots (p_subpicture (p_vout ?s)) l \<noteq> []
          \<and> 0 \<notin> starts (p_subpicture (p_vout ?s)) (dvd_slots (p_subpicture (p_vout ?s)) l) \<longrightarrow>
          ephemer_date ?s
            = Min (starts (p_subpicture (p_vout ?s)) (dvd_slots (p_subpicture (p_vout ?s)) l))"
    using 2 by (simp add: sp(1,4))
  have a3: "p_ephemer ?s = None \<longrightarrow>
          vout_SortSubPictures d st = (p_subpic ?s, p_vout ?s)"
    using 3 by (simp add: sp(2,3,5))
  have a4: "p_ephemer ?s = Some e \<longrightarrow>
          (if i_start (p_subpicture (p_vout ?s) ! e) < ephemer_date ?s
           then i_status (p_subpicture (snd (vout_SortSubPictures d st)) ! e) = DESTROYED_SUBPICTURE
                \<and> e \<notin> set l
                \<and> subpic_list (p_subpicture (snd (vout_SortSubPictures d st)))
                      ?n (fst (vout_SortSubPictures d st)) = Some l
           else i_status (p_subpicture (snd (vout_SortSubPictures d st)) ! e) = READY_SUBPICTURE
                \<and> fst (vout_SortSubPictures d st) = Some e
                \<and> subpic_list (p_subpicture (snd (vout_SortSubPictures d st)))
                      ?n (fst (vout_SortSubPictures d st))
                    = Some (e # l))" for e
    using 4[of e] unfolding sp(1,3,4) by blast
  show ?thesis
    by (rule exI[of _ l]) (intro conjI allI a0 a1 a2 a3 a4)
qed

theorem ephemer_date_and_candidate_witness:
  "subpic_list (p_subpicture (p_vout (sort_scan 20 (vout0 pool_abc)))) 3
      (p_subpic (sort_scan 20 (vout0 pool_abc))) = Some [2, 1]
   \<and> dvd_slots (p_subpicture (p_vout (sort_scan 20 (vout0 pool_abc)))) [2, 1] = [2, 1]
   \<and> starts (p_subpicture (p_vout (sort_scan 20 (vout0 pool_abc)))) [2, 1] = {15, 20}
   \<and> ephemer_date (sort_scan 20 (vout0 pool_abc)) = 15
   \<and> p_ephemer (sort_scan 20 (vout0 pool_abc)) = Some 0
   \<and> i_start (p_subpicture (p_vout (sort_scan 20 (vout0 pool_abc))) ! 0) = 10
   \<and> i_status (p_subpicture (snd (vout_SortSubPictures 20 (vout0 pool_abc))) ! 0)
       = DESTROYED_SUBPICTURE"
proof -
  let ?s = "sort_scan 20 (vout0 pool_abc)"
  have w: "subpic_list (p_subpicture (p_vout ?s)) 3 (p_subpic ?s) = Some [2, 1]"
    by code_simp
  have dv: "dvd_slots (p_subpicture (p_vout ?s)) [2, 1] = [2, 1]"
    by code_simp
  have m: "map (\<lambda>j. i_start (p_subpicture (p_vout ?s) ! j)) [2, 1] = [15, 20]"
    by code_simp
  have stt: "starts (p_subpicture (p_vout ?s)) [2, 1] = {15, 20}"
    unfolding starts_def m by simp
  have c: "p_ephemer ?s = Some 0" "i_start (p_subpicture (p_vout ?s) ! 0) = 10"
    by code_simp+
  have n: "length (p_subpicture (vout0 pool_abc)) = 3" by code_simp
  from ephemer_date_and_candidate[of 20 "vout0 pool_abc"] obtain linked where
    l: "subpic_list (p_subpicture (p_vout ?s)) 3 (p_subpic ?s) = Some linked"
    and d: "dvd_slots (p_subpicture (p_vout ?s)) linked \<noteq> []
          \<and> 0 \<notin> starts (p_subpicture (p_vout ?s)) (dvd_slots (p_subpicture (p_vout ?s)) linked) \<longrightarrow>
          ephemer_date ?s = Min (starts (p_subpicture (p_vout ?s))
                     (dvd_slots (p_subpicture (p_vout ?s)) linked))"
    and k: "\<forall>e. p_ephemer ?s = Some e \<longrightarrow>
          (if i_start (p_subpicture (p_vout ?s) ! e) < ephemer_date ?s
           then i_status (p_subpicture (snd (vout_SortSubPictures 20 (vout0 pool_abc))) ! e)
                  = DESTROYED_SUBPICTURE
                \<and> e \<notin> set linked
                \<and> subpic_list (p_subpicture (snd (vout_SortSubPictures 20 (vout0 pool_abc))))
                      3 (fst (vout_SortSubPictures 20 (vout0 pool_abc))) = Some linked
           else i_status (p_subpicture (snd (vout_SortSubPictures 20 (vout0 pool_abc))) ! e)
                  = READY_SUBPICTURE
                \<and> fst (vout_SortSubPictures 20 (vout0 pool_abc)) = Some e
                \<and> subpic_list (p_subpicture (snd (vout_SortSubPictures 20 (vout0 pool_abc))))
                      3 (fst (vout_SortSubPictures 20 (vout0 pool_abc)))
                    = Some (e # linked))"
    unfolding n by blast
  from l w have linked: "linked = [2, 1]" by simp
  from d have date: "ephemer_date ?s = 15"
    unfolding linked dv stt by simp
  from k c date have "i_status (p_subpicture (snd (vout_SortSubPictures 20 (vout0 pool_abc))) ! 0)
       = DESTROYED_SUBPICTURE"
    by simp
  with w dv stt date c show ?thesis by simp
qed

end

